theory Spec2Isabelle
  imports Main "HOL-Library.AList" "HOL-Library.Multiset" "HOL-Library.List_Lexorder" "HOL-Library.Product_Lexorder"
begin

section \<open>Strings\<close>

text \<open>
  A Python \<^verbatim>\<open>str\<close> is a sequence of Unicode code points; \<^verbatim>\<open>len\<close> counts code
  points and \<^verbatim>\<open><\<close> compares two strings lexicographically by code point. A code point
  is a natural number, a string is a list of them, and the order on strings is the
  lexicographic order on lists.
\<close>

type_synonym code_point = nat
type_synonym str = "code_point list"

section \<open>The tokenizer\<close>

text \<open>
  \<^verbatim>\<open>TOKEN_RE\<close> is the compiled pattern \<^verbatim>\<open>[...]+\<close> whose character class lists, in
  the source's order, the ranges A-Z (U+0041..U+005A), a-z (U+0061..U+007A),
  U+00C0..U+00D6, U+00D8..U+00F6, U+00F8..U+00FF, 0-9 (U+0030..U+0039) and the apostrophe
  (U+0027).
\<close>

definition token_char :: "code_point \<Rightarrow> bool" where
  "token_char c \<longleftrightarrow>
     (0x41 \<le> c \<and> c \<le> 0x5A) \<or> (0x61 \<le> c \<and> c \<le> 0x7A) \<or>
     (0xC0 \<le> c \<and> c \<le> 0xD6) \<or> (0xD8 \<le> c \<and> c \<le> 0xF6) \<or> (0xF8 \<le> c \<and> c \<le> 0xFF) \<or>
     (0x30 \<le> c \<and> c \<le> 0x39) \<or> c = 0x27"

text \<open>
  \<^verbatim>\<open>TOKEN_RE.finditer(s)\<close>: the matches of a greedy one-or-more repetition of the class,
  scanned from the left and not overlapping. A match starts at the first character of the
  class and takes every following character of the class.
\<close>

function finditer :: "str \<Rightarrow> str list" where
  "finditer [] = []"
| "finditer (c # cs) =
     (if token_char c then (c # takeWhile token_char cs) # finditer (dropWhile token_char cs)
      else finditer cs)"
  by pat_completeness auto
termination
  by (relation "measure length") (auto simp: length_dropWhile_le less_Suc_eq_le)

text \<open>
  \<^verbatim>\<open>str.lower\<close> on a match. A match holds characters of the class only, and on those
  Python's lowering is one character to one character: A..Z and the capital letters
  U+00C0..U+00DE (without the multiplication sign U+00D7, which is not in the class) move
  up by 32, every other character of the class is unchanged.
\<close>

definition lower_cp :: "code_point \<Rightarrow> code_point" where
  "lower_cp c =
     (if (0x41 \<le> c \<and> c \<le> 0x5A) \<or> (0xC0 \<le> c \<and> c \<le> 0xDE \<and> c \<noteq> 0xD7) then c + 32 else c)"

definition lower :: "str \<Rightarrow> str" where
  "lower s = map lower_cp s"

text \<open>
  \<^verbatim>\<open>
  def tokenize(s: str):
      for m in TOKEN_RE.finditer(s):
          yield m.group(0).lower()
  \<close>
  The generator is read as the list of what it yields.
\<close>

definition tokenize :: "str \<Rightarrow> str list" where
  "tokenize s = map lower (finditer s)"

text \<open>
  The tokenizer in the words of the specification: the text is cut at every delimiter,
  the pieces between two delimiters that hold at least one character are the maximal
  runs, and each run is lowered. \<open>runs_of\<close> takes the set of characters that make up a
  token as a parameter.
\<close>

fun pieces :: "(code_point \<Rightarrow> bool) \<Rightarrow> str \<Rightarrow> str list" where
  "pieces P [] = [[]]"
| "pieces P (c # cs) =
     (if P c then (case pieces P cs of [] \<Rightarrow> [[c]] | w # ws \<Rightarrow> (c # w) # ws)
      else [] # pieces P cs)"

definition runs_of :: "(code_point \<Rightarrow> bool) \<Rightarrow> str \<Rightarrow> str list" where
  "runs_of P s = filter (\<lambda>w. w \<noteq> []) (pieces P s)"

text \<open>
  The specification's token characters are the Unicode letters, the digits and the
  apostrophe. \<open>spec_letter\<close> lists the code points up to U+00FF that Unicode classifies as
  letters (general category L): besides the letters of \<^verbatim>\<open>TOKEN_RE\<close> these are the
  feminine ordinal indicator U+00AA, the micro sign U+00B5 and the masculine ordinal
  indicator U+00BA. Letters above U+00FF are left out of the list; on the three named
  ones \<^verbatim>\<open>str.lower\<close> changes nothing, as \<^const>\<open>lower_cp\<close> does.
\<close>

definition spec_letter :: "code_point \<Rightarrow> bool" where
  "spec_letter c \<longleftrightarrow>
     (0x41 \<le> c \<and> c \<le> 0x5A) \<or> (0x61 \<le> c \<and> c \<le> 0x7A) \<or> c = 0xAA \<or> c = 0xB5 \<or> c = 0xBA \<or>
     (0xC0 \<le> c \<and> c \<le> 0xD6) \<or> (0xD8 \<le> c \<and> c \<le> 0xF6) \<or> (0xF8 \<le> c \<and> c \<le> 0xFF)"

definition spec_token_char :: "code_point \<Rightarrow> bool" where
  "spec_token_char c \<longleftrightarrow> spec_letter c \<or> (0x30 \<le> c \<and> c \<le> 0x39) \<or> c = 0x27"

definition spec_tokenize :: "str \<Rightarrow> str list" where
  "spec_tokenize s = map lower (runs_of spec_token_char s)"


section \<open>Python values used by the pipeline\<close>

datatype error = ValueError | TypeError | IndexError | FileNotFoundError

text \<open>String literals of the source, as code points.\<close>

definition lit :: "string \<Rightarrow> str" where
  "lit s = map of_char s"

text \<open>\<^verbatim>\<open>str(n)\<close> for an integer: decimal digits, with a minus sign when negative.\<close>

function str_nat :: "nat \<Rightarrow> str" where
  "str_nat n = (if n < 10 then [48 + n] else str_nat (n div 10) @ [48 + n mod 10])"
  by pat_completeness auto
termination
  by (relation "measure id") auto

declare str_nat.simps [simp del]

definition str_int :: "int \<Rightarrow> str" where
  "str_int i = (if i < 0 then 45 # str_nat (nat (- i)) else str_nat (nat i))"

text \<open>
  \<^verbatim>\<open>int(s)\<close> on a string. The model reads an optional sign followed by one or more of the
  digits 0-9, which covers everything \<^verbatim>\<open>str\<close> writes. Python accepts a few more spellings
  (blanks around the number, underscores between digits, digits of other scripts); the model
  answers \<^verbatim>\<open>ValueError\<close> on them, as on every other string.
\<close>

definition is_digit :: "code_point \<Rightarrow> bool" where
  "is_digit c \<longleftrightarrow> 48 \<le> c \<and> c \<le> 57"

definition digits_value :: "str \<Rightarrow> nat" where
  "digits_value ds = foldl (\<lambda>a c. 10 * a + (c - 48)) 0 ds"

definition py_nat :: "str \<Rightarrow> error + nat" where
  "py_nat ds = (if ds \<noteq> [] \<and> list_all is_digit ds then Inr (digits_value ds) else Inl ValueError)"

definition py_int :: "str \<Rightarrow> error + int" where
  "py_int s =
     (case s of
        [] \<Rightarrow> Inl ValueError
      | c # cs \<Rightarrow>
          if c = 45 then (case py_nat cs of Inl e \<Rightarrow> Inl e | Inr n \<Rightarrow> Inr (- int n))
          else if c = 43 then (case py_nat cs of Inl e \<Rightarrow> Inl e | Inr n \<Rightarrow> Inr (int n))
          else (case py_nat s of Inl e \<Rightarrow> Inl e | Inr n \<Rightarrow> Inr (int n)))"

text \<open>
  A \<^verbatim>\<open>dict\<close> keeps its keys in insertion order: it is an association list with distinct
  keys. Storing under a key that is present replaces the value where it stands, storing
  under a new key appends it; this is \<^const>\<open>AList.update\<close>. \<^verbatim>\<open>Counter(iterable)\<close> counts
  the elements one at a time, \<^verbatim>\<open>self[elem] = self.get(elem, 0) + 1\<close>.
\<close>

type_synonym ('k, 'v) dict = "('k \<times> 'v) list"

definition counter_get :: "('k, int) dict \<Rightarrow> 'k \<Rightarrow> int" where
  "counter_get c k = (case map_of c k of None \<Rightarrow> 0 | Some n \<Rightarrow> n)"

definition counter_incr :: "('k, int) dict \<Rightarrow> 'k \<Rightarrow> ('k, int) dict" where
  "counter_incr c k = AList.update k (counter_get c k + 1) c"

definition Counter :: "'k list \<Rightarrow> ('k, int) dict" where
  "Counter xs = foldl counter_incr [] xs"

section \<open>The map phase\<close>

text \<open>
  \<^verbatim>\<open>postings = defaultdict(Counter)\<close> maps a term to a counter from document id to
  frequency. \<^verbatim>\<open>postings[term][did] += tf\<close> looks the term up (a missing term gets an
  empty counter, stored under the term), reads the counter at \<^verbatim>\<open>did\<close> (0 when missing) and
  stores the sum.
\<close>

type_synonym postings = "(str, (int, int) dict) dict"

definition postings_add :: "postings \<Rightarrow> str \<Rightarrow> int \<Rightarrow> int \<Rightarrow> postings" where
  "postings_add p term did tf =
     (let docs = (case map_of p term of None \<Rightarrow> [] | Some c \<Rightarrow> c)
      in AList.update term (AList.update did (counter_get docs did + tf) docs) p)"

text \<open>
  \<^verbatim>\<open>
  def map_count_docs(doc_texts, start_doc_id):
      postings = defaultdict(Counter)
      did = start_doc_id
      for txt in doc_texts:
          if not txt:
              did += 1
              continue
          ctr = Counter(tokenize(txt))
          if ctr:
              for term, tf in ctr.items():
                  postings[term][did] += tf
          did += 1
      return postings, len(doc_texts)
  \<close>
  The loop body is \<open>map_count_doc\<close>, on the pair of the table and \<^verbatim>\<open>did\<close>.
\<close>

definition map_count_doc :: "postings \<times> int \<Rightarrow> str \<Rightarrow> postings \<times> int" where
  "map_count_doc st txt =
     (case st of (postings, did) \<Rightarrow>
        if txt = [] then (postings, did + 1)
        else
          let ctr = Counter (tokenize txt)
          in (if ctr \<noteq> []
              then foldl (\<lambda>p (term, tf). postings_add p term did tf) postings ctr
              else postings,
              did + 1))"

definition map_count_docs :: "str list \<Rightarrow> int \<Rightarrow> postings \<times> nat" where
  "map_count_docs doc_texts start_doc_id =
     (fst (foldl map_count_doc ([], start_doc_id) doc_texts), length doc_texts)"

section \<open>Run files\<close>

type_synonym row = "str \<times> int \<times> int"

text \<open>The record line \<^verbatim>\<open>f"{term}\t{doc_id}\t{tf}\n"\<close>; tab is 9 and newline is 10.\<close>

definition format_row :: "row \<Rightarrow> str" where
  "format_row r = (case r of (term, doc_id, tf) \<Rightarrow> term @ [9] @ str_int doc_id @ [9] @ str_int tf @ [10])"

text \<open>
  \<^verbatim>\<open>
  def spill_sorted_chunk(postings, tmp_dir, chunk_idx):
      rows = []
      for term, docs in postings.items():
          for doc_id, tf in docs.items():
              rows.append((term, doc_id, tf))
      rows.sort(key=lambda x: (x[0], x[1]))
      ...
          for term, doc_id, tf in rows:
              w.write(f"{term}\t{doc_id}\t{tf}\n")
      return path, len(rows)
  \<close>
  \<open>chunk_rows\<close> is the sorted list, \<open>chunk_text\<close> the text written to the run file.
  \<^verbatim>\<open>list.sort\<close> is stable, as \<^const>\<open>sort_key\<close> is.
\<close>

definition postings_rows :: "postings \<Rightarrow> row list" where
  "postings_rows postings =
     concat (map (\<lambda>(term, docs). map (\<lambda>(doc_id, tf). (term, doc_id, tf)) docs) postings)"

definition row_key :: "row \<Rightarrow> str \<times> int" where
  "row_key x = (fst x, fst (snd x))"

definition chunk_rows :: "postings \<Rightarrow> row list" where
  "chunk_rows postings = sort_key row_key (postings_rows postings)"

definition chunk_text :: "postings \<Rightarrow> str" where
  "chunk_text postings = concat (map format_row (chunk_rows postings))"


section \<open>Reading a run file\<close>

text \<open>
  A text file is the string of its characters. Iterating over a file opened in text mode
  yields its lines: a line ends after a newline, and a carriage return, alone or followed
  by a newline, is read as a newline (13 is the carriage return). The last line may lack
  the newline.
\<close>

fun readlines_from :: "str \<Rightarrow> str \<Rightarrow> str list" where
  "readlines_from cur [] = (if cur = [] then [] else [cur])"
| "readlines_from cur (c # cs) =
     (if c = 10 then (cur @ [10]) # readlines_from [] cs
      else if c = 13 then
        (case cs of
           [] \<Rightarrow> [cur @ [10]]
         | d # ds \<Rightarrow> if d = 10 then (cur @ [10]) # readlines_from [] ds
                     else (cur @ [10]) # readlines_from [] cs)
      else readlines_from (cur @ [c]) cs)"

definition readlines :: "str \<Rightarrow> str list" where
  "readlines text = readlines_from [] text"

text \<open>\<^verbatim>\<open>line.rstrip("\n")\<close> removes every trailing newline; \<^verbatim>\<open>.split("\t")\<close> cuts at
  every tab and yields at least one field.\<close>

definition rstrip_nl :: "str \<Rightarrow> str" where
  "rstrip_nl s = rev (dropWhile (\<lambda>c. c = 10) (rev s))"

fun split_tab :: "str \<Rightarrow> str list" where
  "split_tab [] = [[]]"
| "split_tab (c # cs) =
     (if c = 9 then [] # split_tab cs
      else (case split_tab cs of [] \<Rightarrow> [[c]] | f # fs \<Rightarrow> (c # f) # fs))"

text \<open>
  \<^verbatim>\<open>
  def gen(i, fh):
      for line in fh:
          term, doc, tf = line.rstrip("\n").split("\t")
          yield (term, int(doc), int(tf), i)
  \<close>
  \<open>gen_line\<close> is the loop body: unpacking anything but three fields raises
  \<^verbatim>\<open>ValueError\<close>, and so does \<^verbatim>\<open>int\<close> on a field that is no number. The generator
  is the pair of its index and the lines it has not read yet; \<open>next_item\<close> is
  \<^verbatim>\<open>next(it)\<close>, with \<open>None\<close> for \<^verbatim>\<open>StopIteration\<close>.
\<close>

type_synonym item = "str \<times> int \<times> int \<times> nat"
type_synonym cursor = "nat \<times> str list"

definition gen_line :: "nat \<Rightarrow> str \<Rightarrow> error + item" where
  "gen_line i line =
     (case split_tab (rstrip_nl line) of
        [term, doc, tf] \<Rightarrow>
          (case py_int doc of
             Inl e \<Rightarrow> Inl e
           | Inr d \<Rightarrow> (case py_int tf of Inl e \<Rightarrow> Inl e | Inr f \<Rightarrow> Inr (term, d, f, i)))
      | _ \<Rightarrow> Inl ValueError)"

definition gen :: "nat \<Rightarrow> str \<Rightarrow> cursor" where
  "gen i fh = (i, readlines fh)"

fun next_item :: "cursor \<Rightarrow> error + (item \<times> cursor) option" where
  "next_item (i, []) = Inr None"
| "next_item (i, line # rest) =
     (case gen_line i line of Inl e \<Rightarrow> Inl e | Inr x \<Rightarrow> Inr (Some (x, (i, rest))))"

section \<open>The heap\<close>

text \<open>
  A heap entry is the tuple \<^verbatim>\<open>(term, doc, tf, src, it)\<close>. Python compares two tuples at
  the first position where they differ. Terms compare as strings, \<^verbatim>\<open>doc\<close>, \<^verbatim>\<open>tf\<close> and
  \<^verbatim>\<open>src\<close> as numbers; two generators do not compare, so two entries that agree on the
  four leading fields raise \<^verbatim>\<open>TypeError\<close>.
\<close>

type_synonym entry = "str \<times> int \<times> int \<times> nat \<times> cursor"

definition entry_key :: "entry \<Rightarrow> str \<times> int \<times> int \<times> nat" where
  "entry_key e = (case e of (term, doc, tf, src, it) \<Rightarrow> (term, doc, tf, src))"

definition entry_less :: "entry \<Rightarrow> entry \<Rightarrow> error + bool" where
  "entry_less a b =
     (if entry_key a = entry_key b then Inl TypeError else Inr (entry_key a < entry_key b))"

text \<open>
  \<^verbatim>\<open>heapq\<close> is the standard library's binary heap and is modelled by its contract: a heap
  holds entries, \<^verbatim>\<open>heappop\<close> removes and returns the least of them and raises
  \<^verbatim>\<open>IndexError\<close> on an empty heap, \<^verbatim>\<open>heappush\<close> adds one, \<^verbatim>\<open>heapify\<close> arranges a list.
  Which pairs an operation compares depends on the layout of the heap; the model raises
  \<^verbatim>\<open>TypeError\<close> as soon as any two entries of the heap do not compare, which covers
  every comparison the library can make.
\<close>

definition comparable :: "entry list \<Rightarrow> bool" where
  "comparable h \<longleftrightarrow> distinct (map entry_key h)"

definition heapify :: "entry list \<Rightarrow> error + entry list" where
  "heapify h = (if comparable h then Inr h else Inl TypeError)"

definition heappop :: "entry list \<Rightarrow> error + entry \<times> entry list" where
  "heappop h =
     (if h = [] then Inl IndexError
      else if \<not> comparable h then Inl TypeError
      else let x = arg_min_list entry_key h in Inr (x, remove1 x h))"

definition heappush :: "entry list \<Rightarrow> entry \<Rightarrow> error + entry list" where
  "heappush h x = (if comparable (x # h) then Inr (x # h) else Inl TypeError)"

section \<open>The merge and the shard writer\<close>

text \<open>
  The state of the loop of \<^verbatim>\<open>merge_sorted_chunks\<close>: the heap, the texts of the shards
  already closed (shard 0 first), the text written to the open shard \<^verbatim>\<open>out\<close>, and the
  three counters.
\<close>

record merge_state =
  heap :: "entry list"
  closed :: "str list"
  out :: str
  written_in_shard :: int
  records :: nat
  shard_idx :: nat

text \<open>
  \<^verbatim>\<open>
  while heap:
      term, doc, tf, src, it = heapq.heappop(heap)
      out.write(f"{term}\t{doc}\t{tf}\n")
      records += 1
      written_in_shard += len(term) + len(str(doc)) + len(str(tf)) + 3
      try:
          nterm, ndoc, ntf, _ = next(it)
          heapq.heappush(heap, (nterm, ndoc, ntf, src, it))
      except StopIteration:
          pass
      if written_in_shard >= shard_mb * 1024 * 1024:
          out.close()
          shard_idx += 1
          shard_path = os.path.join(outdir, f"{basename}_{shard_idx:03d}.tsv")
          out = open(shard_path, "w", encoding="utf-8")
          written_in_shard = 0
  \<close>
  \<open>merge_step\<close> is one pass through the body.
\<close>

definition advance :: "entry list \<Rightarrow> nat \<Rightarrow> cursor \<Rightarrow> error + entry list" where
  "advance h src it =
     (case next_item it of
        Inl e \<Rightarrow> Inl e
      | Inr None \<Rightarrow> Inr h
      | Inr (Some ((nterm, ndoc, ntf, _), it')) \<Rightarrow> heappush h (nterm, ndoc, ntf, src, it'))"

definition write_row :: "row \<Rightarrow> merge_state \<Rightarrow> merge_state" where
  "write_row r st =
     (case r of (term, doc, tf) \<Rightarrow>
        st\<lparr>out := out st @ format_row (term, doc, tf),
           records := records st + 1,
           written_in_shard := written_in_shard st
             + int (length term) + int (length (str_int doc)) + int (length (str_int tf)) + 3\<rparr>)"

definition next_shard :: "int \<Rightarrow> merge_state \<Rightarrow> merge_state" where
  "next_shard shard_mb st =
     (if written_in_shard st \<ge> shard_mb * 1024 * 1024
      then st\<lparr>closed := closed st @ [out st], shard_idx := shard_idx st + 1,
              out := [], written_in_shard := 0\<rparr>
      else st)"

definition merge_step :: "int \<Rightarrow> merge_state \<Rightarrow> error + merge_state" where
  "merge_step shard_mb st =
     (case heappop (heap st) of
        Inl e \<Rightarrow> Inl e
      | Inr ((term, doc, tf, src, it), h) \<Rightarrow>
          (let st1 = write_row (term, doc, tf) (st\<lparr>heap := h\<rparr>)
           in case advance (heap st1) src it of
                Inl e \<Rightarrow> Inl e
              | Inr h' \<Rightarrow> Inr (next_shard shard_mb (st1\<lparr>heap := h'\<rparr>))))"

text \<open>
  The loop ends because every pass takes one line from the runs: \<open>pending\<close> counts the
  entries of the heap and the lines their generators still hold.
\<close>

definition pending :: "entry list \<Rightarrow> nat" where
  "pending h = sum_list (map (\<lambda>e. Suc (length (snd (snd (snd (snd (snd e))))))) h)"

function merge_loop :: "int \<Rightarrow> merge_state \<Rightarrow> error + merge_state" where
  "merge_loop shard_mb st =
     (if heap st = [] then Inr st
      else (case merge_step shard_mb st of
              Inl e \<Rightarrow> Inl e
            | Inr st' \<Rightarrow> merge_loop shard_mb st'))"
  by pat_completeness auto
termination
proof (relation "measure (\<lambda>(m, st). pending (heap st))")
  show "wf (measure (\<lambda>(m, st). pending (heap st)))"
    by simp
next
  fix shard_mb :: int and st st' :: merge_state
  assume ne: "heap st \<noteq> []" and step: "merge_step shard_mb st = Inr st'"
  let ?x = "arg_min_list entry_key (heap st)"
  let ?h = "remove1 ?x (heap st)"
  obtain t doc tf src i ls where x: "?x = (t, doc, tf, src, i, ls)"
    by (cases ?x) auto
  have mem: "?x \<in> set (heap st)"
    using ne by (rule arg_min_list_in)
  have total: "pending (heap st) = Suc (length ls) + pending ?h"
    using sum_list_map_remove1 [OF mem, of "\<lambda>e. Suc (length (snd (snd (snd (snd (snd e))))))"]
    by (simp add: pending_def x)
  have adv: "Inr (heap st') = advance ?h src (i, ls)"
    using step ne x
    by (auto simp: merge_step_def heappop_def write_row_def next_shard_def Let_def
             split: if_splits sum.splits)
  have "pending (heap st') \<le> length ls + pending ?h"
  proof (cases ls)
    case Nil
    with adv show ?thesis by (simp add: advance_def)
  next
    case (Cons l rest)
    with adv show ?thesis
      by (auto simp: advance_def heappush_def pending_def split: sum.splits if_splits)
  qed
  with total show "((shard_mb, st'), (shard_mb, st)) \<in> measure (\<lambda>(m, st). pending (heap st))"
    by simp
qed

declare merge_loop.simps [simp del]



text \<open>
  \<^verbatim>\<open>
  iters = [gen(i, fh) for i, fh in enumerate(files)]
  heap = []
  for it in iters:
      try:
          term, doc, tf, src = next(it)
          heap.append((term, doc, tf, src, it))
      except StopIteration:
          pass
  heapq.heapify(heap)
  \<close>
\<close>

fun first_items :: "cursor list \<Rightarrow> error + entry list" where
  "first_items [] = Inr []"
| "first_items (it # its) =
     (case next_item it of
        Inl e \<Rightarrow> Inl e
      | Inr None \<Rightarrow> first_items its
      | Inr (Some ((term, doc, tf, src), it')) \<Rightarrow>
          (case first_items its of
             Inl e \<Rightarrow> Inl e
           | Inr h \<Rightarrow> Inr ((term, doc, tf, src, it') # h)))"

text \<open>
  The merge on the texts of the run files, in the order of \<^verbatim>\<open>chunk_paths\<close>. It returns
  the texts of the shards in the order of their indices, and the pair
  \<^verbatim>\<open>(records, shard_idx + 1)\<close> that \<^verbatim>\<open>merge_sorted_chunks\<close> returns.
\<close>

definition merge_runs :: "str list \<Rightarrow> int \<Rightarrow> error + str list \<times> nat \<times> nat" where
  "merge_runs files shard_mb =
     (case first_items (map (\<lambda>(i, fh). gen i fh) (enumerate 0 files)) of
        Inl e \<Rightarrow> Inl e
      | Inr h0 \<Rightarrow>
          (case heapify h0 of
             Inl e \<Rightarrow> Inl e
           | Inr h \<Rightarrow>
               (case merge_loop shard_mb
                       \<lparr>heap = h, closed = [], out = [], written_in_shard = 0,
                        records = 0, shard_idx = 0\<rparr> of
                  Inl e \<Rightarrow> Inl e
                | Inr st \<Rightarrow> Inr (closed st @ [out st], records st, shard_idx st + 1))))"

section \<open>The file system\<close>

text \<open>
  A path is the pair of a directory and a file name, which is what \<^verbatim>\<open>os.path.join\<close>
  is given. The file system holds the directories that exist and the text of every file,
  under its path. Removing a file and removing a directory are the calls the source wraps
  in \<^verbatim>\<open>try: ... except: pass\<close>: where the call would fail (no such file, a directory
  that does not exist or is not empty), nothing changes. The model has no permissions: a
  file that exists can be removed, as the files of a directory made by
  \<^verbatim>\<open>tempfile.mkdtemp\<close> can.
\<close>

type_synonym path = "str \<times> str"

record filesystem =
  dirs :: "str set"
  files :: "(path, str) dict"

definition os_path_join :: "str \<Rightarrow> str \<Rightarrow> path" where
  "os_path_join d name = (d, name)"

definition os_makedirs :: "str \<Rightarrow> filesystem \<Rightarrow> filesystem" where
  "os_makedirs d fs = fs\<lparr>dirs := insert d (dirs fs)\<rparr>"

definition write_file :: "path \<Rightarrow> str \<Rightarrow> filesystem \<Rightarrow> filesystem" where
  "write_file p text fs = fs\<lparr>files := AList.update p text (files fs)\<rparr>"

definition read_file :: "filesystem \<Rightarrow> path \<Rightarrow> error + str" where
  "read_file fs p = (case map_of (files fs) p of None \<Rightarrow> Inl FileNotFoundError | Some text \<Rightarrow> Inr text)"

definition os_remove :: "path \<Rightarrow> filesystem \<Rightarrow> filesystem" where
  "os_remove p fs = fs\<lparr>files := AList.delete p (files fs)\<rparr>"

definition os_rmdir :: "str \<Rightarrow> filesystem \<Rightarrow> filesystem" where
  "os_rmdir d fs =
     (if d \<in> dirs fs \<and> filter (\<lambda>(p, text). fst p = d) (files fs) = []
      then fs\<lparr>dirs := dirs fs - {d}\<rparr> else fs)"

text \<open>Zero padding of the format specs \<^verbatim>\<open>06d\<close> and \<^verbatim>\<open>03d\<close>, on a number that is not
  negative.\<close>

definition zero_pad :: "nat \<Rightarrow> nat \<Rightarrow> str" where
  "zero_pad w n = replicate (w - length (str_nat n)) 48 @ str_nat n"

definition chunk_name :: "nat \<Rightarrow> str" where
  "chunk_name idx = lit ''chunk_'' @ zero_pad 6 idx @ lit ''.tsv''"

definition shard_name :: "str \<Rightarrow> nat \<Rightarrow> str" where
  "shard_name basename idx = basename @ lit ''_'' @ zero_pad 3 idx @ lit ''.tsv''"

text \<open>\<^verbatim>\<open>spill_sorted_chunk\<close> writes the run file and returns its path and \<^verbatim>\<open>len(rows)\<close>.\<close>

definition spill_sorted_chunk ::
  "postings \<Rightarrow> str \<Rightarrow> nat \<Rightarrow> filesystem \<Rightarrow> filesystem \<times> path \<times> nat" where
  "spill_sorted_chunk postings tmp_dir idx fs =
     (let path = os_path_join tmp_dir (chunk_name idx)
      in (write_file path (chunk_text postings) fs, path, length (chunk_rows postings)))"

text \<open>
  \<^verbatim>\<open>merge_sorted_chunks\<close> opens every run file before it writes. Shard \<open>k\<close> is written
  through one handle from the moment it is opened until it is closed; the model stores the
  text of each shard under its path, in the order the shards were opened.
\<close>

fun open_all :: "filesystem \<Rightarrow> path list \<Rightarrow> error + str list" where
  "open_all fs [] = Inr []"
| "open_all fs (p # ps) =
     (case read_file fs p of
        Inl e \<Rightarrow> Inl e
      | Inr text \<Rightarrow> (case open_all fs ps of Inl e \<Rightarrow> Inl e | Inr texts \<Rightarrow> Inr (text # texts)))"

definition store_shards :: "str \<Rightarrow> str \<Rightarrow> str list \<Rightarrow> filesystem \<Rightarrow> filesystem" where
  "store_shards outdir basename shards fs =
     foldl (\<lambda>fs (k, text). write_file (os_path_join outdir (shard_name basename k)) text fs)
       fs (enumerate 0 shards)"

definition merge_sorted_chunks ::
  "path list \<Rightarrow> str \<Rightarrow> int \<Rightarrow> str \<Rightarrow> filesystem \<Rightarrow> error + filesystem \<times> nat \<times> nat" where
  "merge_sorted_chunks chunk_paths outdir shard_mb basename fs =
     (let fs1 = os_makedirs outdir fs
      in case open_all fs1 chunk_paths of
           Inl e \<Rightarrow> Inl e
         | Inr texts \<Rightarrow>
             (case merge_runs texts shard_mb of
                Inl e \<Rightarrow> Inl e
              | Inr (shards, rows, nshards) \<Rightarrow>
                  Inr (store_shards outdir basename shards fs1, rows, nshards)))"

section \<open>The segmenter and the driver\<close>

text \<open>
  \<^verbatim>\<open>
  futures = []
  doc_buf, line_buf = [], []
  next_doc_id = 0
  for line in f:
      line_buf.append(line)
      if len(line_buf) >= lines_per_doc:
          doc_text = "".join(line_buf)
          doc_buf.append(doc_text)
          line_buf = []
          if len(doc_buf) >= batch_docs:
              futures.append(flush_docs(doc_buf, next_doc_id))
              next_doc_id += len(doc_buf)
              doc_buf = []
  if line_buf:
      doc_buf.append("".join(line_buf))
      line_buf = []
  if doc_buf:
      futures.append(flush_docs(doc_buf, next_doc_id))
      next_doc_id += len(doc_buf)
      doc_buf = []
  \<close>
  A future is the call \<^verbatim>\<open>map_count_docs(list(docs), start_id)\<close> it was submitted with:
  the pair of the batch and its starting id.
\<close>

type_synonym batch = "str list \<times> int"

record seg_state =
  futures :: "batch list"
  doc_buf :: "str list"
  line_buf :: "str list"
  next_doc_id :: int

definition seg_line :: "int \<Rightarrow> int \<Rightarrow> seg_state \<Rightarrow> str \<Rightarrow> seg_state" where
  "seg_line lines_per_doc batch_docs st line =
     (let st1 = st\<lparr>line_buf := line_buf st @ [line]\<rparr>
      in if int (length (line_buf st1)) \<ge> lines_per_doc
         then
           let st2 = st1\<lparr>doc_buf := doc_buf st1 @ [concat (line_buf st1)], line_buf := []\<rparr>
           in if int (length (doc_buf st2)) \<ge> batch_docs
              then st2\<lparr>futures := futures st2 @ [(doc_buf st2, next_doc_id st2)],
                       next_doc_id := next_doc_id st2 + int (length (doc_buf st2)),
                       doc_buf := []\<rparr>
              else st2
         else st1)"

definition seg_finish :: "seg_state \<Rightarrow> seg_state" where
  "seg_finish st =
     (let st1 = (if line_buf st \<noteq> []
                 then st\<lparr>doc_buf := doc_buf st @ [concat (line_buf st)], line_buf := []\<rparr>
                 else st)
      in if doc_buf st1 \<noteq> []
         then st1\<lparr>futures := futures st1 @ [(doc_buf st1, next_doc_id st1)],
                  next_doc_id := next_doc_id st1 + int (length (doc_buf st1)),
                  doc_buf := []\<rparr>
         else st1)"

definition segment :: "int \<Rightarrow> int \<Rightarrow> str list \<Rightarrow> seg_state" where
  "segment lines_per_doc batch_docs lines =
     seg_finish (foldl (seg_line lines_per_doc batch_docs)
       \<lparr>futures = [], doc_buf = [], line_buf = [], next_doc_id = 0\<rparr> lines)"

text \<open>
  \<^verbatim>\<open>
  for fut in as_completed(futures):
      postings, ndocs = fut.result()
      total_docs += ndocs
      path, rows = spill_sorted_chunk(postings, tmp_dir, chunk_idx)
      chunk_paths.append(path)
      chunk_idx += 1
  \<close>
  The loop runs over the futures in the order in which they complete, which the scheduler
  decides: the driver takes that order as the list \<open>completed\<close>.
\<close>

record spill_state =
  fsys :: filesystem
  total_docs :: nat
  chunk_paths :: "path list"
  chunk_idx :: nat

definition spill_future :: "str \<Rightarrow> spill_state \<Rightarrow> batch \<Rightarrow> spill_state" where
  "spill_future tmp_dir st fut =
     (case fut of (docs, start_id) \<Rightarrow>
        case map_count_docs docs start_id of (postings, ndocs) \<Rightarrow>
          case spill_sorted_chunk postings tmp_dir (chunk_idx st) (fsys st) of (fs', path, rows) \<Rightarrow>
            \<lparr>fsys = fs', total_docs = total_docs st + ndocs,
             chunk_paths = chunk_paths st @ [path], chunk_idx = chunk_idx st + 1\<rparr>)"

text \<open>The format spec \<^verbatim>\<open>{n:,}\<close> on a number that is not negative: the digits in groups
  of three, with commas (44) between the groups.\<close>

function commas :: "str \<Rightarrow> str" where
  "commas ds =
     (if length ds \<le> 3 then ds
      else commas (take (length ds - 3) ds) @ [44] @ drop (length ds - 3) ds)"
  by pat_completeness auto
termination
  by (relation "measure length") auto

declare commas.simps [simp del]

definition summary_text :: "str \<Rightarrow> int \<Rightarrow> nat \<Rightarrow> nat \<Rightarrow> nat \<Rightarrow> str \<Rightarrow> str" where
  "summary_text outdir lines_per_doc ndocs rows nshards elapsed =
     [205] @ lit ''ndice invertido en '' @ [39] @ outdir @ [39, 10]
     @ lit ''Docs (bloques de '' @ str_int lines_per_doc @ lit '' l'' @ [237] @ lit ''neas): ''
       @ commas (str_nat ndocs) @ [10]
     @ lit ''Postings                        : '' @ commas (str_nat rows) @ [10]
     @ lit ''Shards                          : '' @ str_nat nshards @ [10]
     @ lit ''Tiempo total                    : '' @ elapsed @ lit ''s'' @ [10]"

text \<open>
  \<^verbatim>\<open>build_inverted_index\<close>. What the model is given beyond the arguments of the source:
  the directory \<open>tmp_dir\<close> that \<^verbatim>\<open>tempfile.mkdtemp\<close> creates, the order \<open>as_completed\<close> in
  which the futures complete, and the text \<open>elapsed\<close> of the measured time. The number of
  threads only sets how many map workers run at once and has no part in the result.
\<close>

definition build_inverted_index ::
  "path \<Rightarrow> str \<Rightarrow> int \<Rightarrow> int \<Rightarrow> int \<Rightarrow> str \<Rightarrow> (batch list \<Rightarrow> batch list) \<Rightarrow> str
     \<Rightarrow> filesystem \<Rightarrow> error + filesystem" where
  "build_inverted_index input_path outdir lines_per_doc batch_docs shard_mb
       tmp_dir as_completed elapsed fs =
     (let fs1 = os_makedirs outdir fs;
          fs2 = os_makedirs tmp_dir fs1
      in case read_file fs2 input_path of
           Inl e \<Rightarrow> Inl e
         | Inr text \<Rightarrow>
             let seg = segment lines_per_doc batch_docs (readlines text);
                 sp = foldl (spill_future tmp_dir)
                        \<lparr>fsys = fs2, total_docs = 0, chunk_paths = [], chunk_idx = 0\<rparr>
                        (as_completed (futures seg))
             in case merge_sorted_chunks (chunk_paths sp) outdir shard_mb (lit ''index'') (fsys sp) of
                  Inl e \<Rightarrow> Inl e
                | Inr (fs3, rows, nshards) \<Rightarrow>
                    let fs4 = foldl (\<lambda>fs p. os_remove p fs) fs3 (chunk_paths sp);
                        fs5 = os_rmdir tmp_dir fs4
                    in Inr (write_file (os_path_join outdir (lit ''resumen.txt''))
                              (summary_text outdir lines_per_doc (total_docs sp) rows nshards elapsed)
                              fs5))"

section \<open>Notions used in the statements\<close>

text \<open>
  A term can be written to a run file and read back when it holds no tab, no newline and
  no carriage return. Tokens are such terms.
\<close>

definition clean_term :: "str \<Rightarrow> bool" where
  "clean_term t \<longleftrightarrow> 9 \<notin> set t \<and> 10 \<notin> set t \<and> 13 \<notin> set t"

definition clean_row :: "row \<Rightarrow> bool" where
  "clean_row r \<longleftrightarrow> clean_term (fst r)"

text \<open>The text of a file that holds the given rows, one line each.\<close>

definition rows_text :: "row list \<Rightarrow> str" where
  "rows_text rows = concat (map format_row rows)"

text \<open>
  The shard writer alone: what the loop of \<^verbatim>\<open>merge_sorted_chunks\<close> does to the shards
  and the counters when it is handed the rows one after the other.
\<close>

definition write_rows :: "int \<Rightarrow> row list \<Rightarrow> merge_state \<Rightarrow> merge_state" where
  "write_rows shard_mb rows st = foldl (\<lambda>s r. next_shard shard_mb (write_row r s)) st rows"

definition entry_src :: "entry \<Rightarrow> nat" where
  "entry_src e = fst (snd (snd (snd e)))"

definition item_row :: "item \<Rightarrow> row" where
  "item_row x = (fst x, fst (snd x), fst (snd (snd x)))"

definition tag :: "nat \<Rightarrow> row \<Rightarrow> item" where
  "tag i r = (fst r, fst (snd r), snd (snd r), i)"

text \<open>
  A line of a run file is good when it reads as a row with a clean term and is the line
  that row is written as. The items of a heap entry are its own and those its generator
  will yield, all under the entry's run index.
\<close>

definition row_of_line :: "str \<Rightarrow> row" where
  "row_of_line l = (case gen_line 0 l of Inl e \<Rightarrow> ([], 0, 0) | Inr x \<Rightarrow> item_row x)"

definition good_line :: "str \<Rightarrow> bool" where
  "good_line l \<longleftrightarrow>
     (case gen_line 0 l of Inl e \<Rightarrow> False | Inr x \<Rightarrow> clean_row (item_row x) \<and> format_row (item_row x) = l)"

definition entry_items :: "entry \<Rightarrow> item list" where
  "entry_items e =
     (case e of (t, d, f, src, i, ls) \<Rightarrow> (t, d, f, src) # map (\<lambda>l. tag src (row_of_line l)) ls)"

definition good_entry :: "entry \<Rightarrow> bool" where
  "good_entry e \<longleftrightarrow> (case e of (t, d, f, src, i, ls) \<Rightarrow> list_all good_line ls)"

text \<open>
  The size of a text in bytes, as the shard files are written: in UTF-8 a code point takes
  one to four bytes.
\<close>

definition utf8_len :: "code_point \<Rightarrow> nat" where
  "utf8_len c = (if c < 0x80 then 1 else if c < 0x800 then 2 else if c < 0x10000 then 3 else 4)"

definition utf8_size :: "str \<Rightarrow> nat" where
  "utf8_size s = sum_list (map utf8_len s)"

text \<open>The state in which the loop of \<^verbatim>\<open>merge_sorted_chunks\<close> starts, on a given heap.\<close>

definition merge_init :: "entry list \<Rightarrow> merge_state" where
  "merge_init h = \<lparr>heap = h, closed = [], out = [], written_in_shard = 0, records = 0, shard_idx = 0\<rparr>"

text \<open>
  The rows of the runs, each with the index of its run, and the heap that
  \<^verbatim>\<open>merge_sorted_chunks\<close> builds from the run files that hold them: one entry for every
  run that is not empty, with the first row of the run and a generator on the other lines.
\<close>

definition tagged_rows :: "nat \<Rightarrow> row list list \<Rightarrow> item list" where
  "tagged_rows k runs = concat (map (\<lambda>(i, run). map (tag i) run) (enumerate k runs))"

fun init_heap :: "nat \<Rightarrow> row list list \<Rightarrow> entry list" where
  "init_heap k [] = []"
| "init_heap k ([] # runs) = init_heap (Suc k) runs"
| "init_heap k ((r # rest) # runs) =
     (fst r, fst (snd r), snd (snd r), k, k, map format_row rest) # init_heap (Suc k) runs"

text \<open>What \<^verbatim>\<open>merge_sorted_chunks\<close> returns once the shard writer has been handed \<open>rows\<close>.\<close>

definition merge_result :: "int \<Rightarrow> row list \<Rightarrow> str list \<times> nat \<times> nat" where
  "merge_result shard_mb rows =
     (let st = write_rows shard_mb rows (merge_init [])
      in (closed st @ [out st], records st, shard_idx st + 1))"

text \<open>
  The states of the loop of \<^verbatim>\<open>merge_sorted_chunks\<close> on given run files: the state it
  starts in, with the heap of the first items, and every state a pass of the loop leads to.
\<close>

inductive reachable :: "str list \<Rightarrow> int \<Rightarrow> merge_state \<Rightarrow> bool" for texts :: "str list" and shard_mb :: int where
  start: "first_items (map (\<lambda>(i, fh). gen i fh) (enumerate 0 texts)) = Inr h
    \<Longrightarrow> reachable texts shard_mb (merge_init h)"
| pass: "reachable texts shard_mb st \<Longrightarrow> heap st \<noteq> [] \<Longrightarrow> merge_step shard_mb st = Inr st'
    \<Longrightarrow> reachable texts shard_mb st'"

text \<open>
  The segmenter in the words of the specification: every \<open>n\<close> consecutive lines make a
  group, and what is left at the end, fewer than \<open>n\<close> lines, makes a last group. A document
  is the concatenation of the lines of a group.
\<close>

function line_groups :: "nat \<Rightarrow> 'a list \<Rightarrow> 'a list list" where
  "line_groups n xs = (if xs = [] \<or> n = 0 then [] else take n xs # line_groups n (drop n xs))"
  by pat_completeness auto
termination
  by (relation "measure (\<lambda>(n, xs). length xs)") auto

declare line_groups.simps [simp del]

definition spec_documents :: "nat \<Rightarrow> str list \<Rightarrow> str list" where
  "spec_documents n lines = map concat (line_groups n lines)"

text \<open>The document ids of a batch: \<^verbatim>\<open>map_count_docs\<close> starts at \<^verbatim>\<open>start_doc_id\<close> and adds
  one for every document of the batch.\<close>

definition batch_ids :: "batch \<Rightarrow> int list" where
  "batch_ids b = map (\<lambda>k. snd b + int k) [0..<length (fst b)]"

text \<open>
  The batches start where they should when every batch starts at the number of documents
  in the batches before it. \<open>seg_inv\<close> is what holds of the segmenter's state after it has
  read the lines \<open>ls\<close>, for groups of \<open>n\<close> lines.
\<close>

definition starts_ok :: "batch list \<Rightarrow> bool" where
  "starts_ok bs \<longleftrightarrow> (\<forall>j<length bs. snd (bs ! j) = int (length (concat (map fst (take j bs)))))"


definition seg_inv :: "nat \<Rightarrow> str list \<Rightarrow> seg_state \<Rightarrow> bool" where
  "seg_inv n ls st \<longleftrightarrow>
     (\<exists>gs. ls = concat gs @ line_buf st \<and> (\<forall>g\<in>set gs. length g = n)
        \<and> concat (map fst (futures st)) @ doc_buf st = map concat gs)
     \<and> length (line_buf st) < n
     \<and> starts_ok (futures st)
     \<and> next_doc_id st = int (length (concat (map fst (futures st))))
     \<and> (\<forall>b\<in>set (futures st). fst b \<noteq> [])"


text \<open>
  The reference of the specification: every document is tokenized on its own and the
  frequency of each of its terms is counted directly. \<open>doc_rows\<close> are the rows of one
  document, \<open>batch_rows\<close> those of a list of documents whose first has the id \<open>start\<close>, and
  \<open>reference_rows\<close> those of a whole input.
\<close>

definition doc_rows :: "int \<Rightarrow> str \<Rightarrow> row list" where
  "doc_rows d txt = map (\<lambda>t. (t, d, int (count_list (tokenize txt) t))) (remdups (tokenize txt))"

definition batch_rows :: "str list \<Rightarrow> int \<Rightarrow> row list" where
  "batch_rows docs start = concat (map (\<lambda>(k, txt). doc_rows (start + int k) txt) (enumerate 0 docs))"

definition reference_rows :: "int \<Rightarrow> str list \<Rightarrow> row list" where
  "reference_rows lines_per_doc lines = batch_rows (spec_documents (nat lines_per_doc) lines) 0"

text \<open>The text of the file at a path, if there is one; the table a future results in.\<close>

definition file_at :: "filesystem \<Rightarrow> path \<Rightarrow> str option" where
  "file_at fs p = map_of (files fs) p"

definition postings_of :: "batch \<Rightarrow> postings" where
  "postings_of fut = fst (map_count_docs (fst fut) (snd fut))"

text \<open>The state of the driver after it has spilled the given futures.\<close>

definition spill_all :: "str \<Rightarrow> filesystem \<Rightarrow> batch list \<Rightarrow> spill_state" where
  "spill_all tmp_dir fs futs =
     foldl (spill_future tmp_dir) \<lparr>fsys = fs, total_docs = 0, chunk_paths = [], chunk_idx = 0\<rparr> futs"

section \<open>Properties of the tokenizer\<close>

lemma finditer_skip: "\<forall>c\<in>set d. \<not> token_char c \<Longrightarrow> finditer (d @ s) = finditer s"
  by (induction d) simp_all

lemma finditer_run:
  assumes "t \<noteq> []" and "\<forall>c\<in>set t. token_char c" and "rest = [] \<or> \<not> token_char (hd rest)"
  shows "finditer (t @ rest) = t # finditer rest"
proof -
  obtain c t' where t: "t = c # t'"
    using assms(1) by (cases t) auto
  have run: "\<forall>x\<in>set t'. token_char x"
    using assms(2) t by simp
  have tw: "takeWhile token_char (t' @ rest) = t'"
    using run assms(3) by (cases rest) (simp_all add: takeWhile_tail)
  have dw: "dropWhile token_char (t' @ rest) = rest"
    using run assms(3) by (cases rest) simp_all
  have c: "token_char c"
    using assms(2) t by simp
  show ?thesis
    unfolding t by (simp add: c tw dw)
qed

lemma finditer_chars: "t \<in> set (finditer s) \<Longrightarrow> t \<noteq> [] \<and> (\<forall>c\<in>set t. token_char c)"
proof (induction s arbitrary: t rule: finditer.induct)
  case 1
  then show ?case by simp
next
  case (2 c cs)
  show ?case
  proof (cases "token_char c")
    case True
    with "2.prems" have "t = c # takeWhile token_char cs \<or> t \<in> set (finditer (dropWhile token_char cs))"
      by simp
    then show ?thesis
    proof
      assume "t = c # takeWhile token_char cs"
      with True show ?thesis by (auto dest: set_takeWhileD)
    next
      assume "t \<in> set (finditer (dropWhile token_char cs))"
      with "2.IH"(1) True show ?thesis by blast
    qed
  next
    case False
    with "2.prems" "2.IH"(2) show ?thesis by simp
  qed
qed

lemma token_char_lower_cp: "token_char c \<Longrightarrow> token_char (lower_cp c)"
  unfolding token_char_def lower_cp_def by (simp split: if_splits) arith

lemma tokenize_chars:
  assumes "t \<in> set (tokenize s)"
  shows "t \<noteq> [] \<and> (\<forall>c\<in>set t. token_char c)"
proof -
  from assms obtain m where m: "m \<in> set (finditer s)" and t: "t = lower m"
    by (auto simp: tokenize_def)
  from finditer_chars [OF m] show ?thesis
    by (auto simp: t lower_def token_char_lower_cp)
qed

lemma pieces_takeWhile:
  "pieces P cs = takeWhile P cs # (case dropWhile P cs of [] \<Rightarrow> [] | d # r \<Rightarrow> pieces P r)"
  by (induction cs) (auto split: list.splits)

lemma runs_of_Cons_delim: "\<not> P c \<Longrightarrow> runs_of P (c # cs) = runs_of P cs"
  by (simp add: runs_of_def)

lemma runs_of_dropWhile:
  "filter (\<lambda>w. w \<noteq> []) (case dropWhile P cs of [] \<Rightarrow> [] | d # r \<Rightarrow> pieces P r)
     = runs_of P (dropWhile P cs)"
proof (cases "dropWhile P cs")
  case Nil
  show ?thesis unfolding Nil runs_of_def by simp
next
  case (Cons d r)
  then have "\<not> P d" by (metis hd_dropWhile list.sel(1) list.distinct(1))
  then show ?thesis unfolding Cons runs_of_def by simp
qed

lemma runs_of_Cons_char:
  "P c \<Longrightarrow> runs_of P (c # cs) = (c # takeWhile P cs) # runs_of P (dropWhile P cs)"
proof -
  assume c: "P c"
  have "pieces P (c # cs)
      = (c # takeWhile P cs) # (case dropWhile P cs of [] \<Rightarrow> [] | d # r \<Rightarrow> pieces P r)"
    using c pieces_takeWhile [of P cs] by simp
  then show ?thesis
    using runs_of_dropWhile [of P cs] by (simp add: runs_of_def)
qed

lemma finditer_runs_of: "finditer s = runs_of token_char s"
  by (induction s rule: finditer.induct)
     (simp_all add: runs_of_Cons_char runs_of_Cons_delim, simp add: runs_of_def)

text \<open>
  Claim C4, as the code has it. On every string \<open>tokenize\<close> returns a list (there is no
  error and the empty string gives the empty list), and the list holds the maximal runs of
  the characters of \<^verbatim>\<open>TOKEN_RE\<close>, lowered, in the order in which they occur: it is the list
  of the non-empty pieces between delimiters; a string of delimiters gives no token; a
  string that starts with delimiters \<open>d\<close>, goes on with a run \<open>t\<close> of characters of the
  class and then ends or meets a delimiter gives the lowered \<open>t\<close> first and then the tokens
  of the rest; and every token is non-empty and made of characters of the class only. The
  class is the letters A-Z and a-z, the letters U+00C0..U+00FF without the multiplication
  and the division sign, the digits 0-9 and the apostrophe; any other character, a letter
  of Unicode outside these ranges included, is a delimiter.
\<close>

theorem tokenize_maximal_runs:
  "tokenize [] = []
   \<and> (\<forall>s. tokenize s = map lower (runs_of token_char s))
   \<and> (\<forall>d. (\<forall>c\<in>set d. \<not> token_char c) \<longrightarrow> tokenize d = [])
   \<and> (\<forall>d t rest. (\<forall>c\<in>set d. \<not> token_char c) \<and> t \<noteq> [] \<and> (\<forall>c\<in>set t. token_char c)
          \<and> (rest = [] \<or> \<not> token_char (hd rest))
        \<longrightarrow> tokenize (d @ t @ rest) = lower t # tokenize rest)
   \<and> (\<forall>s. \<forall>t\<in>set (tokenize s). t \<noteq> [] \<and> (\<forall>c\<in>set t. token_char c))"
proof (intro conjI allI impI ballI)
  show "tokenize [] = []"
    by (simp add: tokenize_def)
next
  fix s show "tokenize s = map lower (runs_of token_char s)"
    by (simp add: tokenize_def finditer_runs_of)
next
  fix d assume "\<forall>c\<in>set d. \<not> token_char c"
  then show "tokenize d = []"
    using finditer_skip [of d "[]"] by (simp add: tokenize_def)
next
  fix d t rest
  assume h: "(\<forall>c\<in>set d. \<not> token_char c) \<and> t \<noteq> [] \<and> (\<forall>c\<in>set t. token_char c)
          \<and> (rest = [] \<or> \<not> token_char (hd rest))"
  then have "finditer (d @ t @ rest) = t # finditer rest"
    using finditer_skip [of d "t @ rest"] finditer_run [of t rest] by simp
  then show "tokenize (d @ t @ rest) = lower t # tokenize rest"
    by (simp add: tokenize_def)
next
  fix s t assume "t \<in> set (tokenize s)"
  then show "t \<noteq> []" using tokenize_chars by blast
next
  fix s t c assume "t \<in> set (tokenize s)" and "c \<in> set t"
  then show "token_char c" using tokenize_chars by blast
qed

text \<open>The text \<^verbatim>\<open>" Ab.c"\<close>: a blank, the run \<^verbatim>\<open>Ab\<close>, then a full stop.\<close>

theorem tokenize_maximal_runs_witness:
  "\<not> token_char 32 \<and> token_char 65 \<and> token_char 98 \<and> \<not> token_char 46
   \<and> tokenize ([32] @ [65, 98] @ [46, 99]) = lower [65, 98] # tokenize [46, 99]
   \<and> tokenize [32, 65, 98, 46, 99] = [[97, 98], [99]]"
proof -
  have h: "(\<forall>c\<in>set [32]. \<not> token_char c) \<and> [65, 98] \<noteq> [] \<and> (\<forall>c\<in>set [65, 98]. token_char c)
   \<and> ([46, 99] = [] \<or> \<not> token_char (hd [46, 99]))"
    by (simp add: token_char_def)
  have "tokenize ([32] @ [65, 98] @ [46, 99]) = lower [65, 98] # tokenize [46, 99]"
    using tokenize_maximal_runs h by blast
  moreover have "tokenize [32, 65, 98, 46, 99] = [[97, 98], [99]]"
    by (simp add: tokenize_def token_char_def lower_def lower_cp_def)
  ultimately show ?thesis using h by simp
qed

text \<open>
  Claim C4 as it is stated fails on the one-character text made of the micro sign U+00B5,
  a letter of Unicode: the maximal runs of letters, digits and apostrophes are that one
  run, and the code yields no token.
\<close>

theorem tokenize_unicode_letter_counterexample:
  "spec_tokenize [0xB5] = [[0xB5]] \<and> tokenize [0xB5] = []"
  by (simp add: spec_tokenize_def runs_of_def spec_token_char_def spec_letter_def
        lower_def lower_cp_def tokenize_def token_char_def)

section \<open>Numbers and record lines\<close>

lemma str_nat_digits: "list_all is_digit (str_nat n)"
proof (induction n rule: str_nat.induct)
  case (1 n)
  show ?case
  proof (cases "n < 10")
    case True
    then show ?thesis by (subst str_nat.simps) (simp add: is_digit_def)
  next
    case False
    have "n mod 10 < 10" by simp
    then have "is_digit (48 + n mod 10)" unfolding is_digit_def by linarith
    with False "1.IH" show ?thesis by (subst str_nat.simps) simp
  qed
qed

lemma str_nat_nonempty: "str_nat n \<noteq> []"
  by (subst str_nat.simps) simp

lemma digits_value_snoc: "digits_value (ds @ [c]) = 10 * digits_value ds + (c - 48)"
  by (simp add: digits_value_def)

lemma digits_value_str_nat: "digits_value (str_nat n) = n"
proof (induction n rule: str_nat.induct)
  case (1 n)
  show ?case
  proof (cases "n < 10")
    case True
    then show ?thesis by (subst str_nat.simps) (simp add: digits_value_def)
  next
    case False
    with "1.IH" show ?thesis
      by (subst str_nat.simps) (simp add: digits_value_snoc)
  qed
qed

lemma py_nat_str_nat: "py_nat (str_nat n) = Inr n"
  by (simp add: py_nat_def str_nat_nonempty str_nat_digits digits_value_str_nat)

lemma hd_str_nat_digit: "is_digit (hd (str_nat n))"
  using str_nat_digits [of n] str_nat_nonempty [of n] by (cases "str_nat n") simp_all

lemma py_int_str_int: "py_int (str_int i) = Inr i"
proof (cases "i < 0")
  case True
  then show ?thesis by (simp add: py_int_def str_int_def py_nat_str_nat)
next
  case False
  obtain c cs where s: "str_nat (nat i) = c # cs"
    using str_nat_nonempty [of "nat i"] by (cases "str_nat (nat i)") auto
  have "is_digit c" using hd_str_nat_digit [of "nat i"] s by simp
  then have c: "c \<noteq> 45" "c \<noteq> 43" by (auto simp: is_digit_def)
  have "py_nat (c # cs) = Inr (nat i)" using py_nat_str_nat [of "nat i"] s by simp
  with False c show ?thesis by (simp add: py_int_def str_int_def s)
qed

lemma str_int_chars: "c \<in> set (str_int i) \<Longrightarrow> is_digit c \<or> c = 45"
  using str_nat_digits by (auto simp: str_int_def list_all_iff split: if_splits)

lemma str_int_nonempty: "str_int i \<noteq> []"
  by (simp add: str_int_def str_nat_nonempty)

lemma str_int_no_ctl: "c \<in> set (str_int i) \<Longrightarrow> c \<noteq> 9 \<and> c \<noteq> 10 \<and> c \<noteq> 13"
proof -
  assume "c \<in> set (str_int i)"
  then have "is_digit c \<or> c = 45" by (rule str_int_chars)
  then show ?thesis unfolding is_digit_def by linarith
qed

lemma str_int_clean: "clean_term (str_int i)"
  unfolding clean_term_def using str_int_no_ctl [of _ i] by blast

lemma last_str_int: "last (str_int i) \<noteq> 10"
  using str_int_no_ctl [of "last (str_int i)" i] str_int_nonempty [of i] last_in_set by blast

lemma rstrip_nl_snoc: "s \<noteq> [] \<Longrightarrow> last s \<noteq> 10 \<Longrightarrow> rstrip_nl (s @ [10]) = s"
  by (cases s rule: rev_cases) (simp_all add: rstrip_nl_def)

lemma split_tab_no_tab: "9 \<notin> set s \<Longrightarrow> split_tab s = [s]"
  by (induction s) auto

lemma split_tab_append: "9 \<notin> set s \<Longrightarrow> split_tab (s @ 9 # rest) = s # split_tab rest"
  by (induction s) auto

lemma gen_line_format_row:
  assumes "clean_term t"
  shows "gen_line i (format_row (t, d, f)) = Inr (t, d, f, i)"
proof -
  let ?body = "t @ [9] @ str_int d @ [9] @ str_int f"
  have ne: "?body \<noteq> []" by simp
  have "last ?body = last (str_int f)" by (simp add: str_int_nonempty)
  then have l: "last ?body \<noteq> 10" using last_str_int by simp
  have "format_row (t, d, f) = ?body @ [10]" by (simp add: format_row_def)
  then have r: "rstrip_nl (format_row (t, d, f)) = ?body"
    using rstrip_nl_snoc [OF ne l] by simp
  have t9: "9 \<notin> set t" using assms by (simp add: clean_term_def)
  have d9: "9 \<notin> set (str_int d)" and f9: "9 \<notin> set (str_int f)"
    using str_int_no_ctl by blast+
  have "split_tab ?body = [t, str_int d, str_int f]"
    using split_tab_append [OF t9, of "str_int d @ [9] @ str_int f"]
          split_tab_append [OF d9, of "str_int f"] split_tab_no_tab [OF f9] by simp
  then show ?thesis
    unfolding gen_line_def r by (simp add: py_int_str_int)
qed

lemma readlines_from_line:
  "10 \<notin> set s \<Longrightarrow> 13 \<notin> set s \<Longrightarrow>
   readlines_from cur (s @ 10 # rest) = (cur @ s @ [10]) # readlines_from [] rest"
  by (induction s arbitrary: cur) auto

lemma format_row_body:
  assumes "clean_row r"
  obtains b where "format_row r = b @ [10]" and "10 \<notin> set b" and "13 \<notin> set b"
proof -
  obtain t d f where r: "r = (t, d, f)" by (cases r) auto
  let ?b = "t @ [9] @ str_int d @ [9] @ str_int f"
  have "format_row r = ?b @ [10]" by (simp add: r format_row_def)
  moreover have "10 \<notin> set ?b" "13 \<notin> set ?b"
    using assms str_int_no_ctl by (auto simp: r clean_row_def clean_term_def)
  ultimately show ?thesis using that by blast
qed

lemma readlines_from_rows:
  "\<forall>r\<in>set rows. clean_row r \<Longrightarrow> readlines_from [] (rows_text rows) = map format_row rows"
proof (induction rows)
  case Nil
  then show ?case by (simp add: rows_text_def)
next
  case (Cons r rows)
  then have "clean_row r" by simp
  then obtain b where b: "format_row r = b @ [10]" "10 \<notin> set b" "13 \<notin> set b"
    by (rule format_row_body)
  have "rows_text (r # rows) = b @ 10 # rows_text rows"
    by (simp add: rows_text_def b)
  then show ?case
    using readlines_from_line [OF b(2,3), of "[]" "rows_text rows"] Cons by (simp add: b)
qed

lemma readlines_rows_text:
  "\<forall>r\<in>set rows. clean_row r \<Longrightarrow> readlines (rows_text rows) = map format_row rows"
  by (simp add: readlines_def readlines_from_rows)

section \<open>The merge loop\<close>

lemma heap_write_row [simp]: "heap (write_row r s) = heap s"
  by (cases r) (simp add: write_row_def)

lemma heap_next_shard [simp]: "heap (next_shard m s) = heap s"
  by (simp add: next_shard_def)

lemma write_row_heap_update: "write_row r (s\<lparr>heap := h\<rparr>) = (write_row r s)\<lparr>heap := h\<rparr>"
  by (cases r) (simp add: write_row_def)

lemma next_shard_heap_update: "next_shard m (s\<lparr>heap := h\<rparr>) = (next_shard m s)\<lparr>heap := h\<rparr>"
  by (simp add: next_shard_def)

lemma write_rows_heap_update:
  "write_rows m rows (s\<lparr>heap := h\<rparr>) = (write_rows m rows s)\<lparr>heap := h\<rparr>"
  unfolding write_rows_def
  by (induction rows arbitrary: s) (simp_all add: write_row_heap_update next_shard_heap_update)

lemma write_rows_Nil [simp]: "write_rows m [] s = s"
  by (simp add: write_rows_def)

lemma write_rows_Cons: "write_rows m (r # rows) s = write_rows m rows (next_shard m (write_row r s))"
  by (simp add: write_rows_def)

lemma write_rows_append: "write_rows m (xs @ ys) s = write_rows m ys (write_rows m xs s)"
  by (simp add: write_rows_def)

lemma merge_step_Inr:
  assumes "merge_step m st = Inr st'"
  obtains t d f src it h' where
    "heap st \<noteq> []" and "comparable (heap st)"
    and "arg_min_list entry_key (heap st) = (t, d, f, src, it)"
    and "advance (remove1 (t, d, f, src, it) (heap st)) src it = Inr h'"
    and "st' = (next_shard m (write_row (t, d, f) st))\<lparr>heap := h'\<rparr>"
proof -
  obtain t d f src it where x: "arg_min_list entry_key (heap st) = (t, d, f, src, it)"
    by (cases "arg_min_list entry_key (heap st)") auto
  from assms have ne: "heap st \<noteq> []" and cmp: "comparable (heap st)"
    by (auto simp: merge_step_def heappop_def split: if_splits)
  from assms ne cmp x obtain h' where
    adv: "advance (remove1 (t, d, f, src, it) (heap st)) src it = Inr h'"
    and st': "st' = next_shard m ((write_row (t, d, f) (st\<lparr>heap := remove1 (t, d, f, src, it) (heap st)\<rparr>))\<lparr>heap := h'\<rparr>)"
    by (auto simp: merge_step_def heappop_def Let_def split: sum.splits)
  have "st' = (next_shard m (write_row (t, d, f) st))\<lparr>heap := h'\<rparr>"
    unfolding st' by (simp add: write_row_heap_update next_shard_heap_update)
  with ne cmp x adv show ?thesis using that by blast
qed

lemma merge_loop_rows:
  "merge_loop m st = Inr st' \<Longrightarrow> \<exists>rows. st' = (write_rows m rows st)\<lparr>heap := []\<rparr>"
proof (induction m st arbitrary: st' rule: merge_loop.induct)
  case (1 m st)
  show ?case
  proof (cases "heap st = []")
    case True
    with "1.prems" have "st' = st" by (simp add: merge_loop.simps)
    with True have "st' = (write_rows m [] st)\<lparr>heap := []\<rparr>" by simp
    then show ?thesis by blast
  next
    case False
    with "1.prems" obtain s1 where step: "merge_step m st = Inr s1" and loop: "merge_loop m s1 = Inr st'"
      by (auto simp: merge_loop.simps [of m st] split: sum.splits)
    from "1.IH" [OF False step loop] obtain rows where rows: "st' = (write_rows m rows s1)\<lparr>heap := []\<rparr>"
      by blast
    from step obtain t d f h' where s1: "s1 = (next_shard m (write_row (t, d, f) st))\<lparr>heap := h'\<rparr>"
      by (rule merge_step_Inr)
    have "st' = (write_rows m ((t, d, f) # rows) st)\<lparr>heap := []\<rparr>"
      unfolding rows s1 by (simp add: write_rows_heap_update write_rows_Cons)
    then show ?thesis by blast
  qed
qed

section \<open>The size of the shards\<close>

lemma length_format_row:
  "int (length (format_row (t, d, f)))
     = int (length t) + int (length (str_int d)) + int (length (str_int f)) + 3"
  by (simp add: format_row_def)

lemma rows_text_snoc: "rows_text (b @ [r]) = rows_text b @ format_row r"
  by (simp add: rows_text_def)

lemma write_rows_snoc: "write_rows m (rows @ [r]) s = next_shard m (write_row r (write_rows m rows s))"
  by (simp add: write_rows_def)

lemma write_rows_blocks:
  "\<exists>blocks b. closed (write_rows m rows (merge_init h)) = map rows_text blocks
     \<and> out (write_rows m rows (merge_init h)) = rows_text b
     \<and> concat blocks @ b = rows
     \<and> (\<forall>bl\<in>set blocks. bl \<noteq> [] \<and> m * 1024 * 1024 \<le> int (length (rows_text bl)))
     \<and> written_in_shard (write_rows m rows (merge_init h)) = int (length (rows_text b))
     \<and> shard_idx (write_rows m rows (merge_init h)) = length blocks
     \<and> records (write_rows m rows (merge_init h)) = length rows"
proof (induction rows rule: rev_induct)
  case Nil
  have "closed (merge_init h) = map rows_text [] \<and> out (merge_init h) = rows_text []
     \<and> concat [] @ [] = ([]::row list)"
    by (simp add: merge_init_def rows_text_def)
  then show ?case
    by (intro exI [of _ "[]"]) (simp add: merge_init_def rows_text_def)
next
  case (snoc r rows)
  let ?s = "write_rows m rows (merge_init h)"
  from snoc obtain blocks b where
    cl: "closed ?s = map rows_text blocks" and ou: "out ?s = rows_text b"
    and cat: "concat blocks @ b = rows"
    and big: "\<forall>bl\<in>set blocks. bl \<noteq> [] \<and> m * 1024 * 1024 \<le> int (length (rows_text bl))"
    and wr: "written_in_shard ?s = int (length (rows_text b))"
    and si: "shard_idx ?s = length blocks" and re: "records ?s = length rows"
    by blast
  obtain t d f where r: "r = (t, d, f)" by (cases r) auto
  let ?w = "write_row r ?s"
  have w_out: "out ?w = rows_text (b @ [r])"
    by (simp add: r write_row_def ou rows_text_snoc)
  have w_wr: "written_in_shard ?w = int (length (rows_text (b @ [r])))"
    using length_format_row [of t d f] by (simp add: r write_row_def wr rows_text_snoc)
  have w_rest: "closed ?w = map rows_text blocks" "shard_idx ?w = length blocks"
    "records ?w = length (rows @ [r])"
    by (simp_all add: r write_row_def cl si re)
  show ?case
  proof (cases "m * 1024 * 1024 \<le> written_in_shard ?w")
    case True
    let ?blocks = "blocks @ [b @ [r]]"
    have "closed (next_shard m ?w) = map rows_text ?blocks"
      and "out (next_shard m ?w) = rows_text []"
      and "concat ?blocks @ [] = rows @ [r]"
      and "\<forall>bl\<in>set ?blocks. bl \<noteq> [] \<and> m * 1024 * 1024 \<le> int (length (rows_text bl))"
      and "written_in_shard (next_shard m ?w) = int (length (rows_text []))"
      and "shard_idx (next_shard m ?w) = length ?blocks"
      and "records (next_shard m ?w) = length (rows @ [r])"
      using True big cat w_out w_wr w_rest by (simp_all add: next_shard_def rows_text_def)
    then show ?thesis
      unfolding write_rows_snoc by blast
  next
    case False
    have "closed (next_shard m ?w) = map rows_text blocks"
      and "out (next_shard m ?w) = rows_text (b @ [r])"
      and "concat blocks @ (b @ [r]) = rows @ [r]"
      and "written_in_shard (next_shard m ?w) = int (length (rows_text (b @ [r])))"
      and "shard_idx (next_shard m ?w) = length blocks"
      and "records (next_shard m ?w) = length (rows @ [r])"
      using False cat w_out w_wr w_rest by (simp_all add: next_shard_def)
    with big show ?thesis
      unfolding write_rows_snoc by blast
  qed
qed

lemma length_le_utf8_size: "length s \<le> utf8_size s"
  by (induction s) (simp_all add: utf8_size_def utf8_len_def)

lemma merge_runs_Inr:
  assumes "merge_runs texts m = Inr (shards, n, k)"
  obtains h rows where
    "first_items (map (\<lambda>(i, fh). gen i fh) (enumerate 0 texts)) = Inr h"
    and "comparable h"
    and "merge_loop m (merge_init h) = Inr ((write_rows m rows (merge_init h))\<lparr>heap := []\<rparr>)"
    and "shards = closed (write_rows m rows (merge_init h)) @ [out (write_rows m rows (merge_init h))]"
    and "n = records (write_rows m rows (merge_init h))"
    and "k = shard_idx (write_rows m rows (merge_init h)) + 1"
proof -
  from assms obtain h0 h st where
    fi: "first_items (map (\<lambda>(i, fh). gen i fh) (enumerate 0 texts)) = Inr h0"
    and hp: "heapify h0 = Inr h"
    and lp: "merge_loop m (merge_init h) = Inr st"
    and res: "shards = closed st @ [out st]" "n = records st" "k = shard_idx st + 1"
    by (auto simp: merge_runs_def merge_init_def split: sum.splits)
  from hp have h: "h = h0" "comparable h"
    by (auto simp: heapify_def split: if_splits)
  from merge_loop_rows [OF lp] obtain rows where
    st: "st = (write_rows m rows (merge_init h))\<lparr>heap := []\<rparr>" by blast
  show ?thesis
    using that [of h rows] fi h lp res unfolding st by simp
qed

text \<open>
  Claim C5. When the merge returns, every shard is the text of a whole number of record
  lines, the shards together hold the \<open>n\<close> records that were counted, and every shard but
  the last holds at least one record and has a size in bytes that is no less than
  \<^verbatim>\<open>shard_mb * 1024 * 1024\<close>: a shard is closed only right after a whole record.
\<close>

theorem shard_size_bound:
  assumes "merge_runs texts shard_mb = Inr (shards, n, k)"
  shows "\<exists>blocks. shards = map rows_text blocks \<and> length (concat blocks) = n \<and> length shards = k
     \<and> (\<forall>j. Suc j < length shards \<longrightarrow>
           blocks ! j \<noteq> [] \<and> shard_mb * 1024 * 1024 \<le> int (utf8_size (shards ! j)))"
proof -
  from assms obtain h rows where
    sh: "shards = closed (write_rows shard_mb rows (merge_init h))
           @ [out (write_rows shard_mb rows (merge_init h))]"
    and n: "n = records (write_rows shard_mb rows (merge_init h))"
    and k: "k = shard_idx (write_rows shard_mb rows (merge_init h)) + 1"
    by (rule merge_runs_Inr)
  from write_rows_blocks [of shard_mb rows h] obtain blocks b where
    cl: "closed (write_rows shard_mb rows (merge_init h)) = map rows_text blocks"
    and ou: "out (write_rows shard_mb rows (merge_init h)) = rows_text b"
    and cat: "concat blocks @ b = rows"
    and big: "\<forall>bl\<in>set blocks. bl \<noteq> [] \<and> shard_mb * 1024 * 1024 \<le> int (length (rows_text bl))"
    and si: "shard_idx (write_rows shard_mb rows (merge_init h)) = length blocks"
    and re: "records (write_rows shard_mb rows (merge_init h)) = length rows"
    by blast
  have shards: "shards = map rows_text (blocks @ [b])"
    by (simp add: sh cl ou)
  have "length (concat (blocks @ [b])) = n"
    using cat by (simp add: n re flip: length_append)
  moreover have "length shards = k"
    by (simp add: shards k si)
  moreover have "\<forall>j. Suc j < length shards \<longrightarrow>
      (blocks @ [b]) ! j \<noteq> [] \<and> shard_mb * 1024 * 1024 \<le> int (utf8_size (shards ! j))"
  proof (intro allI impI)
    fix j assume "Suc j < length shards"
    then have j: "j < length blocks" by (simp add: shards)
    then have mem: "blocks ! j \<in> set blocks" by simp
    have eq: "(blocks @ [b]) ! j = blocks ! j" "shards ! j = rows_text (blocks ! j)"
      using j by (simp_all add: shards nth_append)
    have "shard_mb * 1024 * 1024 \<le> int (length (rows_text (blocks ! j)))"
      using big mem by blast
    also have "\<dots> \<le> int (utf8_size (rows_text (blocks ! j)))"
      using length_le_utf8_size by simp
    finally show "(blocks @ [b]) ! j \<noteq> [] \<and> shard_mb * 1024 * 1024 \<le> int (utf8_size (shards ! j))"
      using big mem eq by simp
  qed
  ultimately show ?thesis using shards by blast
qed

text \<open>Two runs of one record each and the threshold 0: three shards, the last one empty.\<close>

theorem shard_size_bound_witness:
  "merge_runs [[97, 9, 48, 9, 53, 10], [97, 9, 48, 9, 50, 10]] 0
     = Inr ([[97, 9, 48, 9, 50, 10], [97, 9, 48, 9, 53, 10], []], 2, 3)
   \<and> (\<exists>blocks. [[97, 9, 48, 9, 50, 10], [97, 9, 48, 9, 53, 10], []] = map rows_text blocks
        \<and> length (concat blocks) = 2
        \<and> length [[97, 9, 48, 9, 50, 10], [97, 9, 48, 9, 53, 10], [] :: str] = 3
        \<and> (\<forall>j. Suc j < length [[97, 9, 48, 9, 50, 10], [97, 9, 48, 9, 53, 10], [] :: str] \<longrightarrow>
              blocks ! j \<noteq> []
              \<and> 0 * 1024 * 1024
                  \<le> int (utf8_size ([[97, 9, 48, 9, 50, 10], [97, 9, 48, 9, 53, 10], []] ! j))))"
proof -
  have e: "merge_runs [[97, 9, 48, 9, 53, 10], [97, 9, 48, 9, 50, 10]] 0
     = Inr ([[97, 9, 48, 9, 50, 10], [97, 9, 48, 9, 53, 10], []], 2, 3)"
    by code_simp
  from e shard_size_bound [OF e] show ?thesis by (rule conjI)
qed

section \<open>The merge of good runs\<close>

lemma gen_line_index:
  "gen_line i l = (case gen_line 0 l of Inl e \<Rightarrow> Inl e | Inr x \<Rightarrow> Inr (tag i (item_row x)))"
  by (auto simp: gen_line_def tag_def item_row_def split: list.splits sum.splits)

lemma good_line_gen:
  assumes "good_line l"
  shows "gen_line i l = Inr (tag i (row_of_line l))" and "clean_row (row_of_line l)"
    and "format_row (row_of_line l) = l"
  using assms gen_line_index [of i l]
  by (auto simp: good_line_def row_of_line_def split: sum.splits)

lemma good_line_format_row:
  assumes "clean_row r"
  shows "good_line (format_row r)" and "row_of_line (format_row r) = r"
proof -
  obtain t d f where r: "r = (t, d, f)" by (cases r) auto
  have "gen_line 0 (format_row r) = Inr (t, d, f, 0)"
    using assms gen_line_format_row [of t 0 d f] by (simp add: r clean_row_def)
  then show "good_line (format_row r)" and "row_of_line (format_row r) = r"
    using assms by (simp_all add: good_line_def row_of_line_def item_row_def r)
qed

lemma distinct_src_comparable: "distinct (map entry_src h) \<Longrightarrow> comparable h"
proof -
  assume d: "distinct (map entry_src h)"
  have "map entry_src h = map (\<lambda>k. snd (snd (snd k))) (map entry_key h)"
    by (auto simp: entry_src_def entry_key_def split: prod.splits)
  with d show ?thesis
    unfolding comparable_def by (metis distinct_map)
qed

lemma advance_Nil: "advance h src (i, []) = Inr h"
  by (simp add: advance_def)

lemma advance_Cons:
  assumes "good_line l" and "distinct (map entry_src h)" and "src \<notin> entry_src ` set h"
  shows "advance h src (i, l # rest)
     = Inr ((fst (row_of_line l), fst (snd (row_of_line l)), snd (snd (row_of_line l)), src, i, rest) # h)"
proof -
  let ?e = "(fst (row_of_line l), fst (snd (row_of_line l)), snd (snd (row_of_line l)), src, i, rest)"
  have "distinct (map entry_src (?e # h))"
    using assms(2,3) by (simp add: entry_src_def)
  then have "comparable (?e # h)" by (rule distinct_src_comparable)
  then show ?thesis
    using good_line_gen(1) [OF assms(1), of i]
    by (simp add: advance_def heappush_def tag_def)
qed

lemma mset_concat_remove1:
  "x \<in> set h \<Longrightarrow> mset (concat (map f h)) = mset (f x) + mset (concat (map f (remove1 x h)))"
  by (induction h) auto

lemma sorted_entry_items_hd:
  assumes "sorted (map K (entry_items e))" and "y \<in> set (entry_items e)"
  shows "K (entry_key e) \<le> K y"
proof -
  obtain t d f src i ls where e: "e = (t, d, f, src, i, ls)" by (cases e) auto
  have "entry_items e = entry_key e # tl (entry_items e)"
    by (simp add: e entry_items_def entry_key_def)
  then obtain its where its: "entry_items e = entry_key e # its" by blast
  from assms(1) have "\<forall>z\<in>set its. K (entry_key e) \<le> K z"
    unfolding its by simp
  with assms(2) show ?thesis
    unfolding its by auto
qed

lemma merge_loop_good:
  assumes mono: "\<And>a b :: item. a \<le> b \<Longrightarrow> K a \<le> K b"
  shows "\<forall>e\<in>set (heap st). good_entry e \<Longrightarrow> distinct (map entry_src (heap st)) \<Longrightarrow>
     \<forall>e\<in>set (heap st). sorted (map K (entry_items e)) \<Longrightarrow>
     \<exists>items. merge_loop m st = Inr ((write_rows m (map item_row items) st)\<lparr>heap := []\<rparr>)
       \<and> mset items = mset (concat (map entry_items (heap st)))
       \<and> sorted (map K items)"
proof (induction m st rule: merge_loop.induct)
  case (1 m st)
  show ?case
  proof (cases "heap st = []")
    case True
    then have "merge_loop m st = Inr ((write_rows m (map item_row []) st)\<lparr>heap := []\<rparr>)"
      by (simp add: merge_loop.simps [of m st])
    with True show ?thesis by (intro exI [of _ "[]"]) simp
  next
    case False
    let ?x = "arg_min_list entry_key (heap st)"
    obtain t d f src i ls where x: "?x = (t, d, f, src, i, ls)" by (cases ?x) auto
    let ?h = "remove1 ?x (heap st)"
    have mem: "?x \<in> set (heap st)" using False by (rule arg_min_list_in)
    have cmp: "comparable (heap st)" using "1.prems"(2) by (rule distinct_src_comparable)
    have pop: "heappop (heap st) = Inr (?x, ?h)"
      using False cmp by (simp add: heappop_def Let_def)
    have dh: "distinct (map entry_src ?h)"
      using "1.prems"(2) by (simp add: distinct_map distinct_remove1 inj_on_def)
    have src_x: "entry_src ?x = src" by (simp add: x entry_src_def)
    have fresh: "src \<notin> entry_src ` set ?h"
    proof
      assume "src \<in> entry_src ` set ?h"
      then obtain e where e: "e \<in> set ?h" "entry_src e = src" by auto
      have d0: "distinct (heap st)" and inj: "inj_on entry_src (set (heap st))"
        using "1.prems"(2) by (simp_all add: distinct_map)
      from d0 e(1) have "e \<noteq> ?x" "e \<in> set (heap st)" by auto
      with mem e(2) src_x inj show False
        unfolding inj_on_def by blast
    qed
    have good_x: "list_all good_line ls"
      using "1.prems"(1) mem by (auto simp: x good_entry_def)
    define h' where "h' = (case ls of [] \<Rightarrow> ?h
       | l # rest \<Rightarrow> (fst (row_of_line l), fst (snd (row_of_line l)), snd (snd (row_of_line l)), src, i, rest) # ?h)"
    have adv: "advance ?h src (i, ls) = Inr h'"
    proof (cases ls)
      case Nil
      then show ?thesis by (simp add: h'_def advance_Nil)
    next
      case (Cons l rest)
      with good_x have "good_line l" by simp
      from advance_Cons [OF this dh fresh] Cons show ?thesis by (simp add: h'_def)
    qed
    let ?s1 = "(next_shard m (write_row (t, d, f) st))\<lparr>heap := h'\<rparr>"
    have step: "merge_step m st = Inr ?s1"
      using pop adv
      by (simp add: merge_step_def x Let_def write_row_heap_update next_shard_heap_update)
    have items_h': "mset (concat (map entry_items h')) + {#(t, d, f, src)#}
        = mset (concat (map entry_items (heap st)))"
    proof -
      have "mset (concat (map entry_items h')) = mset (tl (entry_items ?x)) + mset (concat (map entry_items ?h))"
        by (cases ls) (simp_all add: h'_def x entry_items_def tag_def)
      moreover have "mset (entry_items ?x) = {#(t, d, f, src)#} + mset (tl (entry_items ?x))"
        by (simp add: x entry_items_def)
      ultimately show ?thesis
        using mset_concat_remove1 [OF mem, of entry_items] by simp
    qed
    have p1: "\<forall>e\<in>set (heap ?s1). good_entry e"
    proof
      fix e assume "e \<in> set (heap ?s1)"
      then have "e \<in> set h'" by simp
      then show "good_entry e"
        using "1.prems"(1) good_x set_remove1_subset [of ?x "heap st"]
        by (cases ls) (auto simp: h'_def good_entry_def)
    qed
    have p2: "distinct (map entry_src (heap ?s1))"
      using dh fresh by (cases ls) (simp_all add: h'_def entry_src_def)
    have sorted_x: "sorted (map K (entry_items ?x))"
      using "1.prems"(3) mem by blast
    have p3: "\<forall>e\<in>set (heap ?s1). sorted (map K (entry_items e))"
    proof
      fix e assume "e \<in> set (heap ?s1)"
      then have e: "e \<in> set h'" by simp
      show "sorted (map K (entry_items e))"
      proof (cases "e \<in> set ?h")
        case True
        then have "e \<in> set (heap st)" using set_remove1_subset by fast
        with "1.prems"(3) show ?thesis by blast
      next
        case False
        with e obtain l rest where ls: "ls = l # rest"
          and "e = (fst (row_of_line l), fst (snd (row_of_line l)), snd (snd (row_of_line l)), src, i, rest)"
          by (cases ls) (auto simp: h'_def)
        then have "entry_items e = tl (entry_items ?x)"
          by (simp add: x entry_items_def tag_def)
        with sorted_x show ?thesis
          by (simp add: x entry_items_def)
      qed
    qed
    from "1.IH" [OF False step p1 p2 p3] obtain items where
      loop: "merge_loop m ?s1 = Inr ((write_rows m (map item_row items) ?s1)\<lparr>heap := []\<rparr>)"
      and ms: "mset items = mset (concat (map entry_items (heap ?s1)))"
      and so: "sorted (map K items)"
      by blast
    let ?items = "(t, d, f, src) # items"
    have "merge_loop m st = merge_loop m ?s1"
      using False step by (simp add: merge_loop.simps [of m st])
    also have "\<dots> = Inr ((write_rows m (map item_row ?items) st)\<lparr>heap := []\<rparr>)"
      unfolding loop by (simp add: write_rows_heap_update write_rows_Cons item_row_def)
    finally have r1: "merge_loop m st = Inr ((write_rows m (map item_row ?items) st)\<lparr>heap := []\<rparr>)" .
    have r2: "mset ?items = mset (concat (map entry_items (heap st)))"
      using ms items_h' by simp
    have "\<forall>y\<in>set items. K (t, d, f, src) \<le> K y"
    proof
      fix y assume "y \<in> set items"
      moreover have "mset items = mset (concat (map entry_items h'))"
        using ms by simp
      then have "set items = set (concat (map entry_items h'))"
        by (rule mset_eq_setD)
      ultimately obtain e where e: "e \<in> set h'" and y: "y \<in> set (entry_items e)" by auto
      have kx: "entry_key ?x = (t, d, f, src)" by (simp add: x entry_key_def)
      show "K (t, d, f, src) \<le> K y"
      proof (cases "e \<in> set ?h")
        case True
        then have eh: "e \<in> set (heap st)" using set_remove1_subset by fast
        have "entry_key ?x = Min (entry_key ` set (heap st))"
          using \<open>heap st \<noteq> []\<close> by (rule f_arg_min_list_f)
        then have "entry_key ?x \<le> entry_key e"
          using eh by simp
        then have "K (t, d, f, src) \<le> K (entry_key e)" using mono kx by simp
        also have "\<dots> \<le> K y"
          using "1.prems"(3) eh y by (blast intro: sorted_entry_items_hd)
        finally show ?thesis .
      next
        case False
        with e obtain l rest where ls: "ls = l # rest"
          and "e = (fst (row_of_line l), fst (snd (row_of_line l)), snd (snd (row_of_line l)), src, i, rest)"
          by (cases ls) (auto simp: h'_def)
        then have "entry_items e = tl (entry_items ?x)"
          by (simp add: x entry_items_def tag_def)
        with y have "y \<in> set (tl (entry_items ?x))" by simp
        moreover have "entry_items ?x \<noteq> []" by (simp add: x entry_items_def)
        ultimately have "y \<in> set (entry_items ?x)" by (metis list.set_sel(2))
        from sorted_entry_items_hd [OF sorted_x this] kx show ?thesis by simp
      qed
    qed
    with so have r3: "sorted (map K ?items)" by simp
    from r1 r2 r3 show ?thesis by blast
  qed
qed

lemma gen_rows_text: "\<forall>r\<in>set run. clean_row r \<Longrightarrow> gen i (rows_text run) = (i, map format_row run)"
  by (simp add: gen_def readlines_rows_text)

lemma next_item_format_row:
  "clean_row r \<Longrightarrow> next_item (i, format_row r # rest) = Inr (Some (tag i r, (i, rest)))"
  using good_line_gen(1) [OF good_line_format_row(1), of r i] good_line_format_row(2) [of r]
  by simp

lemma first_items_runs:
  "\<forall>run\<in>set runs. \<forall>r\<in>set run. clean_row r \<Longrightarrow>
   first_items (map (\<lambda>(i, fh). gen i fh) (enumerate k (map rows_text runs))) = Inr (init_heap k runs)"
proof (induction k runs rule: init_heap.induct)
  case (1 k)
  then show ?case by simp
next
  case (2 k runs)
  then show ?case by (simp add: gen_def rows_text_def readlines_def)
next
  case (3 k r rest runs)
  then have cl: "\<forall>x\<in>set (r # rest). clean_row x" and r: "clean_row r" by simp_all
  have g: "gen k (rows_text (r # rest)) = (k, format_row r # map format_row rest)"
    using gen_rows_text [OF cl] by simp
  have n: "next_item (k, format_row r # map format_row rest)
      = Inr (Some ((fst r, fst (snd r), snd (snd r), k), (k, map format_row rest)))"
    using next_item_format_row [OF r, of k] by (simp add: tag_def)
  have ih: "first_items (map (\<lambda>(i, fh). gen i fh) (enumerate (Suc k) (map rows_text runs)))
      = Inr (init_heap (Suc k) runs)"
    using 3 by simp
  show ?case
    by (simp add: g n ih del: next_item.simps)
qed

lemma init_heap_src: "e \<in> set (init_heap k runs) \<Longrightarrow> k \<le> entry_src e"
  by (induction k runs rule: init_heap.induct) (auto simp: entry_src_def)

lemma init_heap_distinct: "distinct (map entry_src (init_heap k runs))"
proof (induction k runs rule: init_heap.induct)
  case (3 k r rest runs)
  have "k \<notin> entry_src ` set (init_heap (Suc k) runs)"
  proof
    assume "k \<in> entry_src ` set (init_heap (Suc k) runs)"
    then obtain e where "e \<in> set (init_heap (Suc k) runs)" "entry_src e = k" by auto
    with init_heap_src [of e "Suc k" runs] show False by simp
  qed
  with 3 show ?case by (simp add: entry_src_def)
qed simp_all

lemma map_row_of_line_format:
  "\<forall>r\<in>set rows. clean_row r \<Longrightarrow> map (\<lambda>l. tag k (row_of_line l)) (map format_row rows) = map (tag k) rows"
  by (induction rows) (simp_all add: good_line_format_row)

lemma tag_split: "tag k r = (fst r, fst (snd r), snd (snd r), k)"
  by (simp add: tag_def)

lemma init_heap_items:
  "\<forall>run\<in>set runs. \<forall>r\<in>set run. clean_row r \<Longrightarrow>
   concat (map entry_items (init_heap k runs)) = tagged_rows k runs"
proof (induction k runs rule: init_heap.induct)
  case (1 k)
  then show ?case by (simp add: tagged_rows_def)
next
  case (2 k runs)
  then show ?case by (simp add: tagged_rows_def)
next
  case (3 k r rest runs)
  then have "\<forall>x\<in>set rest. clean_row x" by simp
  from map_row_of_line_format [OF this, of k] 3 show ?case
    by (simp add: tagged_rows_def entry_items_def tag_split)
qed

lemma init_heap_good:
  "\<forall>run\<in>set runs. \<forall>r\<in>set run. clean_row r \<Longrightarrow> e \<in> set (init_heap k runs) \<Longrightarrow> good_entry e"
  by (induction k runs rule: init_heap.induct)
     (auto simp: good_entry_def list_all_iff good_line_format_row)

lemma init_heap_entry_items:
  "\<forall>run\<in>set runs. \<forall>r\<in>set run. clean_row r \<Longrightarrow> e \<in> set (init_heap k runs) \<Longrightarrow>
   \<exists>i run. (i, run) \<in> set (enumerate k runs) \<and> entry_items e = map (tag i) run"
proof (induction k runs rule: init_heap.induct)
  case (1 k)
  then show ?case by simp
next
  case (2 k runs)
  then obtain i run where "(i, run) \<in> set (enumerate (Suc k) runs)" "entry_items e = map (tag i) run"
    by auto
  then show ?case by auto
next
  case (3 k r rest runs)
  show ?case
  proof (cases "e \<in> set (init_heap (Suc k) runs)")
    case True
    with 3 obtain i run where "(i, run) \<in> set (enumerate (Suc k) runs)" "entry_items e = map (tag i) run"
      by auto
    then show ?thesis by auto
  next
    case False
    with "3.prems" have e: "e = (fst r, fst (snd r), snd (snd r), k, k, map format_row rest)" by simp
    from "3.prems" have "\<forall>x\<in>set rest. clean_row x" by simp
    from map_row_of_line_format [OF this, of k]
    have "entry_items e = map (tag k) (r # rest)"
      by (simp add: e entry_items_def tag_split)
    moreover have "(k, r # rest) \<in> set (enumerate k ((r # rest) # runs))" by simp
    ultimately show ?thesis by blast
  qed
qed

lemma merge_init_heap: "merge_init h = (merge_init [])\<lparr>heap := h\<rparr>"
  by (simp add: merge_init_def)

lemma merge_result_heap:
  "merge_result m rows =
     (closed ((write_rows m rows (merge_init h))\<lparr>heap := []\<rparr>)
        @ [out ((write_rows m rows (merge_init h))\<lparr>heap := []\<rparr>)],
      records ((write_rows m rows (merge_init h))\<lparr>heap := []\<rparr>),
      shard_idx ((write_rows m rows (merge_init h))\<lparr>heap := []\<rparr>) + 1)"
  unfolding merge_result_def Let_def merge_init_heap [of h] write_rows_heap_update by simp

lemma merge_runs_good:
  assumes clean: "\<forall>run\<in>set runs. \<forall>r\<in>set run. clean_row r"
    and mono: "\<And>a b :: item. a \<le> b \<Longrightarrow> K a \<le> K b"
    and srt: "\<And>i run. (i, run) \<in> set (enumerate 0 runs) \<Longrightarrow> sorted (map K (map (tag i) run))"
  shows "\<exists>items. merge_runs (map rows_text runs) m = Inr (merge_result m (map item_row items))
     \<and> mset items = mset (tagged_rows 0 runs) \<and> sorted (map K items)"
proof -
  let ?h = "init_heap 0 runs"
  have fi: "first_items (map (\<lambda>(i, fh). gen i fh) (enumerate 0 (map rows_text runs))) = Inr ?h"
    using clean by (rule first_items_runs)
  have hp: "heapify ?h = Inr ?h"
    using distinct_src_comparable [OF init_heap_distinct] by (simp add: heapify_def)
  have p1: "\<forall>e\<in>set (heap (merge_init ?h)). good_entry e"
    using init_heap_good [OF clean] by (simp add: merge_init_def)
  have p2: "distinct (map entry_src (heap (merge_init ?h)))"
    by (simp add: merge_init_def init_heap_distinct)
  have p3: "\<forall>e\<in>set (heap (merge_init ?h)). sorted (map K (entry_items e))"
  proof
    fix e assume "e \<in> set (heap (merge_init ?h))"
    then have "e \<in> set ?h" by (simp add: merge_init_def)
    from init_heap_entry_items [OF clean this] obtain i run where
      "(i, run) \<in> set (enumerate 0 runs)" "entry_items e = map (tag i) run" by blast
    with srt show "sorted (map K (entry_items e))" by simp
  qed
  from merge_loop_good [of K "merge_init ?h" m, OF mono p1 p2 p3] obtain items where
    loop: "merge_loop m (merge_init ?h)
       = Inr ((write_rows m (map item_row items) (merge_init ?h))\<lparr>heap := []\<rparr>)"
    and ms: "mset items = mset (concat (map entry_items (heap (merge_init ?h))))"
    and so: "sorted (map K items)"
    by blast
  have "merge_runs (map rows_text runs) m
      = (case merge_loop m (merge_init ?h) of Inl e \<Rightarrow> Inl e
         | Inr st \<Rightarrow> Inr (closed st @ [out st], records st, shard_idx st + 1))"
    by (simp add: merge_runs_def fi hp merge_init_def)
  also have "\<dots> = Inr (merge_result m (map item_row items))"
    unfolding loop merge_result_heap [of m "map item_row items" ?h] by simp
  finally have "merge_runs (map rows_text runs) m = Inr (merge_result m (map item_row items))" .
  moreover have "mset items = mset (tagged_rows 0 runs)"
    using ms init_heap_items [OF clean, of 0] by (simp add: merge_init_def)
  ultimately show ?thesis using so by blast
qed

lemma rows_text_concat: "concat (map rows_text bs) = rows_text (concat bs)"
  by (induction bs) (simp_all add: rows_text_def)

lemma merge_result_text: "concat (fst (merge_result m rows)) = rows_text rows"
proof -
  from write_rows_blocks [of m rows "[]"] obtain blocks b where
    "closed (write_rows m rows (merge_init [])) = map rows_text blocks"
    "out (write_rows m rows (merge_init [])) = rows_text b"
    "concat blocks @ b = rows"
    by blast
  then have "concat (fst (merge_result m rows)) = rows_text (concat (blocks @ [b]))"
    unfolding rows_text_concat [symmetric] by (simp add: merge_result_def Let_def)
  with \<open>concat blocks @ b = rows\<close> show ?thesis by simp
qed

lemma merge_result_counts:
  "fst (snd (merge_result m rows)) = length rows"
  "snd (snd (merge_result m rows)) = length (fst (merge_result m rows))"
proof -
  from write_rows_blocks [of m rows "[]"] obtain blocks b where
    "closed (write_rows m rows (merge_init [])) = map rows_text blocks"
    "shard_idx (write_rows m rows (merge_init [])) = length blocks"
    "records (write_rows m rows (merge_init [])) = length rows"
    by blast
  then show "fst (snd (merge_result m rows)) = length rows"
    "snd (snd (merge_result m rows)) = length (fst (merge_result m rows))"
    by (simp_all add: merge_result_def Let_def)
qed

lemma item_row_tag [simp]: "item_row (tag i r) = r"
  by (simp add: item_row_def tag_def)

lemma map_item_row_tagged: "map item_row (tagged_rows k runs) = concat runs"
  by (induction runs arbitrary: k) (simp_all add: tagged_rows_def comp_def)

lemma row_key_mono: "(a :: item) \<le> b \<Longrightarrow> row_key (item_row a) \<le> row_key (item_row b)"
  by (cases a; cases b) (auto simp: row_key_def item_row_def less_eq_prod_def less_prod_def)

lemma read_rows_text:
  assumes "\<forall>r\<in>set rows. clean_row r"
  shows "map (gen_line i) (readlines (rows_text rows)) = map (\<lambda>r. Inr (tag i r)) rows"
proof -
  have "\<And>r. r \<in> set rows \<Longrightarrow> gen_line i (format_row r) = Inr (tag i r)"
    using assms good_line_gen(1) good_line_format_row by metis
  then show ?thesis
    unfolding readlines_rows_text [OF assms] by simp
qed

section \<open>The order of the merged records\<close>

text \<open>
  Claim C2. The run files hold runs of rows, each run sorted by (term, doc id), terms
  compared as strings and doc ids as numbers. Then the merge returns, and the lines of the
  shard files, read one shard after the other, are rows in which every row is less than or
  equal to the next one in (term, doc id), across the shard boundaries too; they are the
  rows of the runs, every one as often as the runs hold it.
\<close>

theorem merge_output_sorted:
  assumes "\<forall>run\<in>set runs. sorted (map row_key run) \<and> (\<forall>r\<in>set run. clean_row r)"
  shows "\<exists>shards n k rows.
     merge_runs (map rows_text runs) shard_mb = Inr (shards, n, k)
     \<and> map (gen_line 0) (readlines (concat shards)) = map (\<lambda>r. Inr (tag 0 r)) rows
     \<and> mset rows = mset (concat runs)
     \<and> sorted (map row_key rows)
     \<and> (\<forall>j. Suc j < length rows \<longrightarrow> row_key (rows ! j) \<le> row_key (rows ! Suc j))"
proof -
  let ?K = "\<lambda>x :: item. row_key (item_row x)"
  have clean: "\<forall>run\<in>set runs. \<forall>r\<in>set run. clean_row r"
    using assms by blast
  have srt: "\<And>i run. (i, run) \<in> set (enumerate 0 runs) \<Longrightarrow> sorted (map ?K (map (tag i) run))"
  proof -
    fix i run assume "(i, run) \<in> set (enumerate 0 runs)"
    then have "run \<in> set runs" by (auto simp: in_set_enumerate_eq)
    with assms have "sorted (map row_key run)" by blast
    then show "sorted (map ?K (map (tag i) run))" by (simp add: comp_def)
  qed
  from merge_runs_good [of runs ?K shard_mb, OF clean row_key_mono srt] obtain items where
    run: "merge_runs (map rows_text runs) shard_mb = Inr (merge_result shard_mb (map item_row items))"
    and ms: "mset items = mset (tagged_rows 0 runs)"
    and so: "sorted (map ?K items)"
    by blast
  let ?rows = "map item_row items"
  obtain shards n k where res: "merge_result shard_mb ?rows = (shards, n, k)"
    by (cases "merge_result shard_mb ?rows") auto
  have tx: "concat shards = rows_text ?rows"
    using merge_result_text [of shard_mb ?rows] res by simp
  have "mset ?rows = mset (map item_row (tagged_rows 0 runs))"
    using ms by (metis mset_map)
  then have mrows: "mset ?rows = mset (concat runs)"
    by (simp only: map_item_row_tagged)
  then have "set ?rows = set (concat runs)" by (rule mset_eq_setD)
  with clean have crows: "\<forall>r\<in>set ?rows. clean_row r" by auto
  have rd: "map (gen_line 0) (readlines (concat shards)) = map (\<lambda>r. Inr (tag 0 r)) ?rows"
    unfolding tx using crows by (rule read_rows_text)
  have srows: "sorted (map row_key ?rows)"
    using so by (simp add: comp_def)
  then have cons: "\<forall>j. Suc j < length ?rows \<longrightarrow> row_key (?rows ! j) \<le> row_key (?rows ! Suc j)"
    using sorted_iff_nth_Suc [of "map row_key ?rows"] by auto
  have "merge_runs (map rows_text runs) shard_mb = Inr (shards, n, k)"
    using run res by simp
  with rd mrows srows cons show ?thesis
    by (intro exI conjI)
qed

text \<open>The runs \<^verbatim>\<open>[(ana, 0, 1), (casa, 0, 2)]\<close> and \<^verbatim>\<open>[(boda, 1, 1)]\<close>.\<close>

theorem merge_output_sorted_witness:
  "sorted (map row_key [([97, 110, 97], 0, 1), ([99, 97, 115, 97], 0, 2)])
   \<and> sorted (map row_key [([98, 111, 100, 97], 1, 1)])
   \<and> clean_row ([97, 110, 97], 0, 1) \<and> clean_row ([99, 97, 115, 97], 0, 2)
   \<and> clean_row ([98, 111, 100, 97], 1, 1)
   \<and> (\<exists>shards n k rows.
        merge_runs (map rows_text
            [[([97, 110, 97], 0, 1), ([99, 97, 115, 97], 0, 2)], [([98, 111, 100, 97], 1, 1)]]) 1
          = Inr (shards, n, k)
        \<and> map (gen_line 0) (readlines (concat shards)) = map (\<lambda>r. Inr (tag 0 r)) rows
        \<and> mset rows
            = mset (concat [[([97, 110, 97], 0, 1), ([99, 97, 115, 97], 0, 2)], [([98, 111, 100, 97], 1, 1)]])
        \<and> sorted (map row_key rows)
        \<and> (\<forall>j. Suc j < length rows \<longrightarrow> row_key (rows ! j) \<le> row_key (rows ! Suc j)))"
proof -
  have h: "\<forall>run\<in>set [[([97, 110, 97], 0, 1), ([99, 97, 115, 97], 0, 2)], [([98, 111, 100, 97], 1, 1)]].
      sorted (map row_key run) \<and> (\<forall>r\<in>set run. clean_row r)"
    by (simp add: row_key_def clean_row_def clean_term_def)
  from merge_output_sorted [OF h, of 1] h show ?thesis by simp
qed

section \<open>A threshold below every record\<close>

lemma write_rows_single:
  "\<forall>r\<in>set rows. m * 1024 * 1024 \<le> int (length (format_row r)) \<Longrightarrow>
   write_rows m rows (merge_init h)
     = \<lparr>heap = h, closed = map format_row rows, out = [], written_in_shard = 0,
        records = length rows, shard_idx = length rows\<rparr>"
proof (induction rows rule: rev_induct)
  case Nil
  then show ?case by (simp add: merge_init_def)
next
  case (snoc r rows)
  obtain t d f where r: "r = (t, d, f)" by (cases r) auto
  from snoc.prems have big: "m * 1024 * 1024 \<le> int (length (format_row (t, d, f)))"
    by (simp add: r)
  from snoc have ih: "write_rows m rows (merge_init h)
     = \<lparr>heap = h, closed = map format_row rows, out = [], written_in_shard = 0,
        records = length rows, shard_idx = length rows\<rparr>"
    by simp
  show ?case
    unfolding write_rows_snoc ih r
    using big length_format_row [of t d f]
    by (simp add: write_row_def next_shard_def)
qed

lemma sorted_const: "sorted (map (\<lambda>x. (0::nat)) xs)"
  by (induction xs) simp_all

lemma utf8_size_ascii: "\<forall>c\<in>set s. c < 0x80 \<Longrightarrow> utf8_size s = length s"
  by (induction s) (simp_all add: utf8_size_def utf8_len_def)

text \<open>
  Claim C7, as the code has it. The size that the loop holds against the threshold is
  \<^verbatim>\<open>len(term) + len(str(doc)) + len(str(tf)) + 3\<close>, the length of the record line in
  characters; it is the size of the line in bytes when the record is ASCII
  (\<open>utf8_size_ascii\<close>) and less than that otherwise (\<open>length_le_utf8_size\<close>). The run files
  hold rows, and the threshold \<^verbatim>\<open>shard_mb * 1024 * 1024\<close> is below the length in characters
  of the line of every one of them. Then the merge returns, every record is written into a
  shard of its own, and the loop opens one more shard after the last record, which stays
  empty: the shard count that is returned is the record count plus one.
\<close>

theorem one_record_per_shard:
  assumes "\<forall>run\<in>set runs. \<forall>r\<in>set run.
      clean_row r \<and> shard_mb * 1024 * 1024 < int (length (format_row r))"
  shows "\<exists>rows. merge_runs (map rows_text runs) shard_mb
       = Inr (map format_row rows @ [[]], length rows, length rows + 1)
     \<and> mset rows = mset (concat runs)"
proof -
  let ?K = "\<lambda>x :: item. 0 :: nat"
  have clean: "\<forall>run\<in>set runs. \<forall>r\<in>set run. clean_row r"
    using assms by blast
  have srt: "\<And>i run. (i, run) \<in> set (enumerate 0 runs) \<Longrightarrow> sorted (map ?K (map (tag i) run))"
    using sorted_const by (simp add: comp_def)
  from merge_runs_good [of runs ?K shard_mb, OF clean _ srt] obtain items where
    run: "merge_runs (map rows_text runs) shard_mb = Inr (merge_result shard_mb (map item_row items))"
    and ms: "mset items = mset (tagged_rows 0 runs)"
    by auto
  let ?rows = "map item_row items"
  have "mset ?rows = mset (map item_row (tagged_rows 0 runs))"
    using ms by (metis mset_map)
  then have mrows: "mset ?rows = mset (concat runs)"
    by (simp only: map_item_row_tagged)
  then have "set ?rows = set (concat runs)" by (rule mset_eq_setD)
  with assms have "\<forall>r\<in>set ?rows. shard_mb * 1024 * 1024 \<le> int (length (format_row r))"
    by fastforce
  from write_rows_single [OF this, of "[]"]
  have "merge_result shard_mb ?rows = (map format_row ?rows @ [[]], length ?rows, length ?rows + 1)"
    by (simp add: merge_result_def)
  with run mrows show ?thesis
    by (intro exI [of _ ?rows]) simp
qed

text \<open>The runs \<^verbatim>\<open>[(a, 0, 5)]\<close> and \<^verbatim>\<open>[(a, 0, 2)]\<close> with the threshold 0.\<close>

theorem one_record_per_shard_witness:
  "clean_row ([97], 0, 5) \<and> clean_row ([97], 0, 2)
   \<and> 0 * 1024 * 1024 < int (length (format_row ([97], 0, 5)))
   \<and> 0 * 1024 * 1024 < int (length (format_row ([97], 0, 2)))
   \<and> (\<exists>rows. merge_runs (map rows_text [[([97], 0, 5)], [([97], 0, 2)]]) 0
         = Inr (map format_row rows @ [[]], length rows, length rows + 1)
       \<and> mset rows = mset (concat [[([97], 0, 5)], [([97], 0, 2)]]))"
proof -
  have h: "\<forall>run\<in>set [[([97], 0, 5)], [([97], 0, 2)]]. \<forall>r\<in>set run.
      clean_row r \<and> 0 * 1024 * 1024 < int (length (format_row r))"
    by (simp add: clean_row_def clean_term_def format_row_def)
  from one_record_per_shard [OF h] h show ?thesis by simp
qed

lemma str_int_0: "str_int 0 = [48]"
  by (simp add: str_int_def str_nat.simps)

lemma str_int_1: "str_int 1 = [49]"
  by (simp add: str_int_def str_nat.simps)

text \<open>
  Two records of the same term, for the documents 0 and 1, in one run file. The term has
  524287 characters, so each line has 524292 and the two together reach one MiB: with the
  threshold of one MiB they are written into the same shard.
\<close>

lemma wide_records_share_shard:
  assumes "clean_term t" and "length t = 524287"
  shows "merge_runs [format_row (t, 0, 1) @ format_row (t, 1, 1)] 1
       = Inr ([format_row (t, 0, 1) @ format_row (t, 1, 1), []], 2, 2)"
proof -
  let ?K = "\<lambda>x :: item. x"
  let ?a = "(t, 0, 1) :: row" and ?b = "(t, 1, 1) :: row"
  let ?runs = "[[?a, ?b]]"
  have clean: "\<forall>run\<in>set ?runs. \<forall>r\<in>set run. clean_row r"
    using assms(1) by (simp add: clean_row_def)
  have le: "tag 0 ?a \<le> tag 0 ?b"
    by (simp add: tag_def less_eq_prod_def less_prod_def)
  have srt: "\<And>i run. (i, run) \<in> set (enumerate 0 ?runs) \<Longrightarrow> sorted (map ?K (map (tag i) run))"
    by (auto simp: tag_def less_eq_prod_def less_prod_def)
  from merge_runs_good [of ?runs ?K 1, OF clean _ srt] obtain items where
    run: "merge_runs (map rows_text ?runs) 1 = Inr (merge_result 1 (map item_row items))"
    and ms: "mset items = mset (tagged_rows 0 ?runs)"
    and so: "sorted (map ?K items)"
    by auto
  have tr: "tagged_rows 0 ?runs = [tag 0 ?a, tag 0 ?b]"
    by (simp add: tagged_rows_def)
  have "sort [tag 0 ?a, tag 0 ?b] = items"
    using ms so unfolding tr by (intro properties_for_sort) simp_all
  then have items: "items = [tag 0 ?a, tag 0 ?b]"
    using le by (simp add: insort_is_Cons)
  have rows: "map item_row items = [?a, ?b]"
    unfolding items by (simp add: item_row_def tag_def)
  have res: "merge_result 1 [?a, ?b] = ([format_row ?a @ format_row ?b, []], 2, 2)"
    by (simp add: merge_result_def write_rows_Cons write_rows_def write_row_def next_shard_def
        merge_init_def assms(2) str_int_0 str_int_1 Let_def)
  show ?thesis
    using run unfolding rows res by (simp add: rows_text_def)
qed

text \<open>
  Claim C7 as it is stated fails in two ways. On the single run file that holds the line
  \<^verbatim>\<open>a<TAB>0<TAB>1\<close>, with the threshold 0, the merge returns one record and two shards, the
  second one empty. And with the size of a record taken in bytes, as the threshold is
  named: a term of 524287 times the letter U+00E9 makes a record line of 524292 characters
  and 1048579 bytes, more than one MiB; with the threshold of one MiB the two records of
  that term for the documents 0 and 1 are written into the same shard, and the merge
  returns two records and two shards, the second one empty.
\<close>

theorem shard_count_counterexample:
  "0 * 1024 * 1024 < int (length [97, 9, 48, 9, 49, 10 :: nat])
   \<and> merge_runs [[97, 9, 48, 9, 49, 10]] 0 = Inr ([[97, 9, 48, 9, 49, 10], []], 1, 2)
   \<and> 1 * 1024 * 1024 < int (utf8_size (format_row (replicate 524287 233, 0, 1)))
   \<and> 1 * 1024 * 1024 < int (utf8_size (format_row (replicate 524287 233, 1, 1)))
   \<and> merge_runs [format_row (replicate 524287 233, 0, 1) @ format_row (replicate 524287 233, 1, 1)] 1
       = Inr ([format_row (replicate 524287 233, 0, 1) @ format_row (replicate 524287 233, 1, 1), []],
              2, 2)"
proof (intro conjI)
  show "0 * 1024 * 1024 < int (length [97, 9, 48, 9, 49, 10 :: nat])" by simp
  show "merge_runs [[97, 9, 48, 9, 49, 10]] 0 = Inr ([[97, 9, 48, 9, 49, 10], []], 1, 2)"
    by code_simp
  show "1 * 1024 * 1024 < int (utf8_size (format_row (replicate 524287 233, 0, 1)))"
    by (simp add: format_row_def utf8_size_def utf8_len_def str_int_0 str_int_1
        map_replicate_const sum_list_replicate)
  show "1 * 1024 * 1024 < int (utf8_size (format_row (replicate 524287 233, 1, 1)))"
    by (simp add: format_row_def utf8_size_def utf8_len_def str_int_0 str_int_1
        map_replicate_const sum_list_replicate)
  have "clean_term (replicate 524287 233)"
    by (simp add: clean_term_def)
  then show "merge_runs [format_row (replicate 524287 233, 0, 1) @ format_row (replicate 524287 233, 1, 1)] 1
       = Inr ([format_row (replicate 524287 233, 0, 1) @ format_row (replicate 524287 233, 1, 1), []],
              2, 2)"
    by (rule wide_records_share_shard) simp
qed

section \<open>Records that agree on term and document\<close>

lemma tag_less_eq: "row_key r < row_key r' \<Longrightarrow> tag i r \<le> tag i r'"
  by (cases r; cases r') (auto simp: row_key_def tag_def less_eq_prod_def less_prod_def)

lemma sorted_tagged_run:
  assumes "sorted_wrt (<) (map row_key run)"
  shows "sorted (map (tag i) run)"
proof -
  from assms have "sorted_wrt (\<lambda>r r'. row_key r < row_key r') run"
    by (simp add: sorted_wrt_map)
  then have "sorted_wrt (\<lambda>r r'. tag i r \<le> tag i r') run"
    by (rule sorted_wrt_mono_rel [rotated]) (simp add: tag_less_eq)
  then show ?thesis by (simp add: sorted_wrt_map)
qed

text \<open>
  Claim C6, as the code has it. The run files hold runs of rows, each run sorted by
  (term, doc id) with no pair (term, doc id) twice. Then the merge returns and writes every
  row of every run, none merged with another: the records of the shard files, in their
  order, are the rows of the runs sorted by (term, doc id, term frequency, run index). Two
  rows from different runs that agree on (term, doc id) are both written, the one with
  the smaller frequency first, and in the order of the run indices when the frequencies
  agree too.
\<close>

theorem merge_keeps_ties:
  assumes "\<forall>run\<in>set runs. sorted_wrt (<) (map row_key run) \<and> (\<forall>r\<in>set run. clean_row r)"
  shows "\<exists>shards n k.
     merge_runs (map rows_text runs) shard_mb = Inr (shards, n, k)
     \<and> concat shards = rows_text (map item_row (sort (tagged_rows 0 runs)))
     \<and> n = length (concat runs)"
proof -
  let ?K = "\<lambda>x :: item. x"
  have clean: "\<forall>run\<in>set runs. \<forall>r\<in>set run. clean_row r"
    using assms by blast
  have srt: "\<And>i run. (i, run) \<in> set (enumerate 0 runs) \<Longrightarrow> sorted (map ?K (map (tag i) run))"
  proof -
    fix i run assume "(i, run) \<in> set (enumerate 0 runs)"
    then have "run \<in> set runs" by (auto simp: in_set_enumerate_eq)
    with assms have "sorted_wrt (<) (map row_key run)" by blast
    then show "sorted (map ?K (map (tag i) run))" using sorted_tagged_run by simp
  qed
  from merge_runs_good [of runs ?K shard_mb, OF clean _ srt] obtain items where
    run: "merge_runs (map rows_text runs) shard_mb = Inr (merge_result shard_mb (map item_row items))"
    and ms: "mset items = mset (tagged_rows 0 runs)"
    and so: "sorted (map ?K items)"
    by auto
  from so have "sorted items" by simp
  with ms have items: "sort (tagged_rows 0 runs) = items"
    by (rule properties_for_sort)
  let ?rows = "map item_row items"
  obtain shards n k where res: "merge_result shard_mb ?rows = (shards, n, k)"
    by (cases "merge_result shard_mb ?rows") auto
  have tx: "concat shards = rows_text ?rows"
    using merge_result_text [of shard_mb ?rows] res by simp
  have "length items = length (tagged_rows 0 runs)"
    using ms by (rule mset_eq_length)
  also have "\<dots> = length (concat runs)"
    using map_item_row_tagged [of 0 runs] by (metis length_map)
  finally have n: "n = length (concat runs)"
    using merge_result_counts(1) [of shard_mb ?rows] res by simp
  have "merge_runs (map rows_text runs) shard_mb = Inr (shards, n, k)"
    using run res by simp
  with tx n show ?thesis
    unfolding items by (intro exI conjI)
qed

text \<open>Run 0 is \<^verbatim>\<open>[(a, 0, 5)]\<close> and run 1 is \<^verbatim>\<open>[(a, 0, 2)]\<close>: the row of run 1 comes first.\<close>

theorem merge_keeps_ties_witness:
  "sorted_wrt (<) (map row_key [([97], 0, 5)]) \<and> sorted_wrt (<) (map row_key [([97], 0, 2)])
   \<and> clean_row ([97], 0, 5) \<and> clean_row ([97], 0, 2)
   \<and> (\<exists>shards n k.
        merge_runs (map rows_text [[([97], 0, 5)], [([97], 0, 2)]]) 1 = Inr (shards, n, k)
        \<and> concat shards
            = rows_text (map item_row (sort (tagged_rows 0 [[([97], 0, 5)], [([97], 0, 2)]])))
        \<and> n = length (concat [[([97], 0, 5)], [([97 :: nat], 0 :: int, 2 :: int)]]))
   \<and> sort (tagged_rows 0 [[([97], 0, 5)], [([97], 0, 2)]]) = [([97], 0, 2, 1), ([97], 0, 5, 0)]"
proof -
  have h: "\<forall>run\<in>set [[([97], 0, 5)], [([97], 0, 2)]].
      sorted_wrt (<) (map row_key run) \<and> (\<forall>r\<in>set run. clean_row r)"
    by (simp add: clean_row_def clean_term_def)
  have s: "sort (tagged_rows 0 [[([97], 0, 5)], [([97], 0, 2)]]) = [([97], 0, 2, 1), ([97], 0, 5, 0)]"
    by code_simp
  from merge_keeps_ties [OF h, of 1] h s show ?thesis by simp
qed

text \<open>
  Claim C6 as it is stated fails on the run files \<^verbatim>\<open>a<TAB>0<TAB>5\<close> (run 0) and
  \<^verbatim>\<open>a<TAB>0<TAB>2\<close> (run 1), whose heads agree on (term, doc id): the shard holds the
  record of run 1 before the record of run 0.
\<close>

theorem tie_order_counterexample:
  "merge_runs [[97, 9, 48, 9, 53, 10], [97, 9, 48, 9, 50, 10]] 1
     = Inr ([[97, 9, 48, 9, 50, 10, 97, 9, 48, 9, 53, 10]], 2, 1)"
  by code_simp

section \<open>The comparisons of the heap\<close>

lemma entry_src_tuple [simp]: "entry_src (t, d, f, src, it) = src"
  by (simp add: entry_src_def)

lemma py_nat_error: "py_nat s = Inl e \<Longrightarrow> e = ValueError"
  by (simp add: py_nat_def split: if_splits)

lemma py_int_error: "py_int s = Inl e \<Longrightarrow> e = ValueError"
  by (auto simp: py_int_def split: list.splits if_splits sum.splits dest: py_nat_error)

lemma gen_line_error: "gen_line i l = Inl e \<Longrightarrow> e = ValueError"
  by (auto simp: gen_line_def split: list.splits sum.splits dest: py_int_error)

lemma gen_line_src: "gen_line i l = Inr (t, d, f, s) \<Longrightarrow> s = i"
  by (auto simp: gen_line_def split: list.splits sum.splits)

lemma next_item_error: "next_item it = Inl e \<Longrightarrow> e = ValueError"
  by (cases it rule: next_item.cases) (auto split: sum.splits dest: gen_line_error)

lemma next_item_src: "next_item (i, ls) = Inr (Some ((t, d, f, s), it')) \<Longrightarrow> s = i"
  by (cases ls) (auto split: sum.splits dest: gen_line_src)

lemma first_items_error:
  "first_items its = Inl e \<Longrightarrow> e = ValueError"
proof (induction its)
  case Nil
  then show ?case by simp
next
  case (Cons it its)
  then show ?case
    by (auto split: sum.splits option.splits prod.splits dest: next_item_error)
qed

lemma first_items_src:
  "first_items (map (\<lambda>(i, fh). gen i fh) (enumerate k texts)) = Inr h \<Longrightarrow>
   distinct (map entry_src h) \<and> (\<forall>e\<in>set h. k \<le> entry_src e)"
proof (induction texts arbitrary: k h)
  case Nil
  then show ?case by simp
next
  case (Cons fh texts)
  let ?rest = "first_items (map (\<lambda>(i, fh). gen i fh) (enumerate (Suc k) texts))"
  show ?case
  proof (cases "next_item (gen k fh)")
    case (Inl e)
    with Cons.prems show ?thesis by simp
  next
    case (Inr nx)
    show ?thesis
    proof (cases nx)
      case None
      with Inr Cons.prems have "?rest = Inr h" by simp
      from Cons.IH [OF this] show ?thesis by auto
    next
      case (Some p)
      obtain t d f s it' where p: "p = ((t, d, f, s), it')" by (cases p) auto
      have nk: "next_item (k, readlines fh) = Inr (Some ((t, d, f, s), it'))"
        using Inr Some p by (simp add: gen_def)
      then have s: "s = k" by (rule next_item_src)
      from Cons.prems Inr Some p obtain h1 where h1: "?rest = Inr h1" and h: "h = (t, d, f, s, it') # h1"
        by (auto split: sum.splits)
      from Cons.IH [OF h1] have "distinct (map entry_src h1)" "\<forall>e\<in>set h1. Suc k \<le> entry_src e"
        by auto
      then show ?thesis
        unfolding h s by auto
    qed
  qed
qed

lemma advance_src:
  assumes "advance h src it = Inr h'" and "distinct (map entry_src h)" and "src \<notin> entry_src ` set h"
  shows "distinct (map entry_src h')"
proof (cases "next_item it")
  case (Inl e)
  with assms(1) show ?thesis by (simp add: advance_def)
next
  case (Inr nx)
  show ?thesis
  proof (cases nx)
    case None
    with Inr assms show ?thesis by (simp add: advance_def)
  next
    case (Some p)
    obtain t d f s it' where p: "p = ((t, d, f, s), it')" by (cases p) auto
    from assms(1) Inr Some p have "h' = (t, d, f, src, it') # h"
      by (simp add: advance_def heappush_def split: if_splits)
    with assms(2,3) show ?thesis by simp
  qed
qed

lemma advance_no_type_error:
  assumes "distinct (map entry_src h)" and "src \<notin> entry_src ` set h"
  shows "advance h src it \<noteq> Inl TypeError"
proof (cases "next_item it")
  case (Inl e)
  then have "e = ValueError" by (rule next_item_error)
  with Inl show ?thesis by (simp add: advance_def)
next
  case (Inr nx)
  show ?thesis
  proof (cases nx)
    case None
    with Inr show ?thesis by (simp add: advance_def)
  next
    case (Some p)
    obtain t d f s it' where p: "p = ((t, d, f, s), it')" by (cases p) auto
    have "distinct (map entry_src ((t, d, f, src, it') # h))"
      using assms by simp
    then have "comparable ((t, d, f, src, it') # h)" by (rule distinct_src_comparable)
    with Inr Some p show ?thesis by (simp add: advance_def heappush_def)
  qed
qed

lemma remove1_src:
  assumes "distinct (map entry_src h)" and "x \<in> set h"
  shows "distinct (map entry_src (remove1 x h))" and "entry_src x \<notin> entry_src ` set (remove1 x h)"
proof -
  have d0: "distinct h" and inj: "inj_on entry_src (set h)"
    using assms(1) by (simp_all add: distinct_map)
  show "distinct (map entry_src (remove1 x h))"
    using assms(1) by (simp add: distinct_map distinct_remove1 inj_on_def)
  show "entry_src x \<notin> entry_src ` set (remove1 x h)"
  proof
    assume "entry_src x \<in> entry_src ` set (remove1 x h)"
    then obtain e where e: "e \<in> set (remove1 x h)" "entry_src e = entry_src x" by auto
    from d0 e(1) have "e \<noteq> x" "e \<in> set h" by auto
    with assms(2) e(2) inj show False unfolding inj_on_def by blast
  qed
qed

lemma merge_step_src:
  assumes "merge_step m st = Inr st'" and "distinct (map entry_src (heap st))"
  shows "distinct (map entry_src (heap st'))"
proof -
  from assms(1) obtain t d f src it h' where
    ne: "heap st \<noteq> []"
    and x: "arg_min_list entry_key (heap st) = (t, d, f, src, it)"
    and adv: "advance (remove1 (t, d, f, src, it) (heap st)) src it = Inr h'"
    and st': "st' = (next_shard m (write_row (t, d, f) st))\<lparr>heap := h'\<rparr>"
    by (rule merge_step_Inr)
  have mem: "(t, d, f, src, it) \<in> set (heap st)"
    using arg_min_list_in [OF ne, of entry_key] x by simp
  from remove1_src [OF assms(2) mem]
  have "distinct (map entry_src (remove1 (t, d, f, src, it) (heap st)))"
    and "src \<notin> entry_src ` set (remove1 (t, d, f, src, it) (heap st))"
    by simp_all
  from advance_src [OF adv this] show ?thesis by (simp add: st')
qed

lemma merge_step_no_type_error:
  assumes "distinct (map entry_src (heap st))" and "heap st \<noteq> []"
  shows "merge_step m st \<noteq> Inl TypeError"
proof -
  obtain t d f src it where x: "arg_min_list entry_key (heap st) = (t, d, f, src, it)"
    by (cases "arg_min_list entry_key (heap st)") auto
  have mem: "(t, d, f, src, it) \<in> set (heap st)"
    using arg_min_list_in [OF assms(2), of entry_key] x by simp
  from remove1_src [OF assms(1) mem]
  have "distinct (map entry_src (remove1 (t, d, f, src, it) (heap st)))"
    and "src \<notin> entry_src ` set (remove1 (t, d, f, src, it) (heap st))"
    by simp_all
  from advance_no_type_error [OF this, of it]
  show ?thesis
    using assms(2) distinct_src_comparable [OF assms(1)] x
    by (auto simp: merge_step_def heappop_def Let_def split: sum.splits)
qed

lemma merge_loop_no_type_error:
  "distinct (map entry_src (heap st)) \<Longrightarrow> merge_loop m st \<noteq> Inl TypeError"
proof (induction m st rule: merge_loop.induct)
  case (1 m st)
  show ?case
  proof (cases "heap st = []")
    case True
    then show ?thesis by (simp add: merge_loop.simps [of m st])
  next
    case False
    show ?thesis
    proof (cases "merge_step m st")
      case (Inl e)
      with merge_step_no_type_error [OF "1.prems" False, of m] have "e \<noteq> TypeError" by auto
      with Inl False show ?thesis by (simp add: merge_loop.simps [of m st])
    next
      case (Inr st')
      from merge_step_src [OF Inr "1.prems"] have "distinct (map entry_src (heap st'))" .
      from "1.IH" [OF False Inr this] Inr False show ?thesis
        by (simp add: merge_loop.simps [of m st])
    qed
  qed
qed

lemma reachable_src: "reachable texts m st \<Longrightarrow> distinct (map entry_src (heap st))"
proof (induction rule: reachable.induct)
  case (start h)
  from first_items_src [OF this] show ?case by (simp add: merge_init_def)
next
  case (pass st st')
  from merge_step_src [OF pass.hyps(3) pass.IH] show ?case .
qed

lemma merge_runs_no_type_error: "merge_runs texts m \<noteq> Inl TypeError"
proof (cases "first_items (map (\<lambda>(i, fh). gen i fh) (enumerate 0 texts))")
  case (Inl e)
  then have "e = ValueError" by (rule first_items_error)
  with Inl show ?thesis by (simp add: merge_runs_def)
next
  case (Inr h)
  from first_items_src [OF Inr] have d: "distinct (map entry_src h)" by simp
  then have hp: "heapify h = Inr h" by (simp add: heapify_def distinct_src_comparable)
  have "distinct (map entry_src (heap (merge_init h)))" using d by (simp add: merge_init_def)
  from merge_loop_no_type_error [OF this, of m] show ?thesis
    by (auto simp: merge_runs_def Inr hp merge_init_def split: sum.splits)
qed

lemma entry_key_src: "entry_key a = entry_key b \<Longrightarrow> entry_src a = entry_src b"
  by (cases a; cases b) (simp add: entry_key_def)

text \<open>
  Claim C10. On any run files the merge never raises \<^verbatim>\<open>TypeError\<close>. In every state
  the loop reaches, the run indices of the heap entries are pairwise different; so two
  different entries never agree on (term, doc, tf, src), their comparison is decided on
  these four fields without looking at the generators, and one of the two is less than the
  other. The entry that \<^verbatim>\<open>heappop\<close> takes out leaves a heap without its run index, which
  is the index the next entry of that run is pushed with.
\<close>

theorem heap_entries_compare:
  "merge_runs texts shard_mb \<noteq> Inl TypeError
   \<and> (\<forall>st. reachable texts shard_mb st \<longrightarrow>
        distinct (map entry_src (heap st))
        \<and> (\<forall>a\<in>set (heap st). \<forall>b\<in>set (heap st). a \<noteq> b \<longrightarrow>
             entry_src a \<noteq> entry_src b
             \<and> entry_less a b = Inr (entry_key a < entry_key b)
             \<and> (entry_less a b = Inr True \<or> entry_less b a = Inr True))
        \<and> (\<forall>x h. heappop (heap st) = Inr (x, h) \<longrightarrow>
             distinct (map entry_src h) \<and> entry_src x \<notin> entry_src ` set h))"
proof (intro conjI allI impI ballI)
  show "merge_runs texts shard_mb \<noteq> Inl TypeError"
    by (rule merge_runs_no_type_error)
next
  fix st assume "reachable texts shard_mb st"
  then show "distinct (map entry_src (heap st))" by (rule reachable_src)
next
  fix st a b
  assume r: "reachable texts shard_mb st" and a: "a \<in> set (heap st)" and b: "b \<in> set (heap st)"
    and ab: "a \<noteq> b"
  from reachable_src [OF r] have "inj_on entry_src (set (heap st))"
    by (simp add: distinct_map)
  with a b ab have src: "entry_src a \<noteq> entry_src b"
    unfolding inj_on_def by blast
  then have key: "entry_key a \<noteq> entry_key b"
    using entry_key_src by blast
  then have "entry_key b \<noteq> entry_key a" by simp
  with key have "entry_src a \<noteq> entry_src b
      \<and> entry_less a b = Inr (entry_key a < entry_key b)
      \<and> (entry_less a b = Inr True \<or> entry_less b a = Inr True)"
    using src by (auto simp: entry_less_def)
  then show "entry_src a \<noteq> entry_src b" and "entry_less a b = Inr (entry_key a < entry_key b)"
    and "entry_less a b = Inr True \<or> entry_less b a = Inr True"
    by blast+
next
  fix st x h
  assume r: "reachable texts shard_mb st" and pop: "heappop (heap st) = Inr (x, h)"
  from pop have "x \<in> set (heap st)" and h: "h = remove1 x (heap st)"
    by (auto simp: heappop_def Let_def split: if_splits intro: arg_min_list_in)
  from remove1_src [OF reachable_src [OF r] this(1)]
  show "distinct (map entry_src h)" and "entry_src x \<notin> entry_src ` set h"
    unfolding h by blast+
qed

text \<open>Two run files, the second with two lines: the state in which the loop starts.\<close>

theorem heap_entries_compare_witness:
  "reachable [[98, 9, 48, 9, 53, 10], [97, 9, 49, 9, 50, 10, 99, 9, 49, 9, 49, 10]] 1
     (merge_init [([98], 0, 5, 0, 0, []), ([97], 1, 2, 1, 1, [[99, 9, 49, 9, 49, 10]])])
   \<and> distinct (map entry_src
        (heap (merge_init [([98], 0, 5, 0, 0, []), ([97], 1, 2, 1, 1, [[99, 9, 49, 9, 49, 10]])])))
   \<and> merge_runs [[98, 9, 48, 9, 53, 10], [97, 9, 49, 9, 50, 10, 99, 9, 49, 9, 49, 10]] 1
       \<noteq> Inl TypeError"
proof -
  let ?texts = "[[98, 9, 48, 9, 53, 10], [97, 9, 49, 9, 50, 10, 99, 9, 49, 9, 49, 10]]"
  let ?h = "[([98], 0, 5, 0, 0, []), ([97], 1, 2, 1, 1, [[99, 9, 49, 9, 49, 10]])]"
  have "first_items (map (\<lambda>(i, fh). gen i fh) (enumerate 0 ?texts)) = Inr ?h"
    by code_simp
  then have r: "reachable ?texts 1 (merge_init ?h)"
    by (rule reachable.start)
  from heap_entries_compare [of ?texts 1] r show ?thesis by blast
qed

section \<open>The documents and their ids\<close>

lemma line_groups_Nil [simp]: "line_groups n [] = []"
  by (simp add: line_groups.simps)

lemma line_groups_short: "xs \<noteq> [] \<Longrightarrow> length xs < n \<Longrightarrow> line_groups n xs = [xs]"
  by (subst line_groups.simps) simp

lemma line_groups_full:
  "0 < n \<Longrightarrow> length g = n \<Longrightarrow> line_groups n (g @ xs) = g # line_groups n xs"
  by (subst line_groups.simps) auto

lemma line_groups_concat:
  assumes "0 < n" and "\<forall>g\<in>set gs. length g = n" and "length lb < n"
  shows "line_groups n (concat gs @ lb) = gs @ (if lb = [] then [] else [lb])"
  using assms(2)
proof (induction gs)
  case Nil
  then show ?case using assms(3) by (simp add: line_groups_short)
next
  case (Cons g gs)
  then show ?case using assms(1) by (simp add: line_groups_full)
qed

lemma starts_ok_snoc:
  "starts_ok bs \<Longrightarrow> s = int (length (concat (map fst bs))) \<Longrightarrow> starts_ok (bs @ [(docs, s)])"
  by (auto simp: starts_ok_def nth_append less_Suc_eq)

lemma seg_invI:
  assumes "ls = concat gs @ line_buf st" and "\<forall>g\<in>set gs. length g = n"
    and "concat (map fst (futures st)) @ doc_buf st = map concat gs"
    and "length (line_buf st) < n" and "starts_ok (futures st)"
    and "next_doc_id st = int (length (concat (map fst (futures st))))"
    and "\<forall>b\<in>set (futures st). fst b \<noteq> []"
  shows "seg_inv n ls st"
  unfolding seg_inv_def using assms by blast

lemma seg_line_inv:
  assumes "seg_inv n ls st" and "lpd = int n" and "0 < n"
  shows "seg_inv n (ls @ [line]) (seg_line lpd bd st line)"
proof -
  from assms(1) obtain gs where
    ls: "ls = concat gs @ line_buf st" and gs: "\<forall>g\<in>set gs. length g = n"
    and docs: "concat (map fst (futures st)) @ doc_buf st = map concat gs"
    and lb: "length (line_buf st) < n" and so: "starts_ok (futures st)"
    and nx: "next_doc_id st = int (length (concat (map fst (futures st))))"
    and ne: "\<forall>b\<in>set (futures st). fst b \<noteq> []"
    unfolding seg_inv_def by blast
  show ?thesis
  proof (cases "int (length (line_buf st @ [line])) \<ge> lpd")
    case False
    then have "seg_line lpd bd st line = st\<lparr>line_buf := line_buf st @ [line]\<rparr>"
      by (simp add: seg_line_def Let_def)
    moreover have "length (line_buf st @ [line]) < n" using False assms(2) by simp
    ultimately show ?thesis
      using ls gs docs so nx ne by (intro seg_invI [of _ gs]) simp_all
  next
    case True
    let ?g = "line_buf st @ [line]"
    have len: "length ?g = n" using True lb assms(2) by simp
    let ?gs = "gs @ [?g]"
    have ls': "ls @ [line] = concat ?gs @ []" using ls by simp
    have gs': "\<forall>g\<in>set ?gs. length g = n" using gs len by simp
    have docs': "concat (map fst (futures st)) @ (doc_buf st @ [concat ?g]) = map concat ?gs"
      using docs by (simp flip: append_assoc)
    show ?thesis
    proof (cases "int (length (doc_buf st @ [concat ?g])) \<ge> bd")
      case False
      with True have "seg_line lpd bd st line
          = st\<lparr>line_buf := [], doc_buf := doc_buf st @ [concat ?g]\<rparr>"
        by (simp add: seg_line_def Let_def)
      then show ?thesis
        using ls' gs' docs' so nx ne assms(3) by (intro seg_invI [of _ ?gs]) simp_all
    next
      case flush: True
      let ?b = "(doc_buf st @ [concat ?g], next_doc_id st)"
      from True flush have eq: "seg_line lpd bd st line
          = st\<lparr>line_buf := [], doc_buf := [], futures := futures st @ [?b],
               next_doc_id := next_doc_id st + int (length (doc_buf st @ [concat ?g]))\<rparr>"
        by (simp add: seg_line_def Let_def)
      have "starts_ok (futures st @ [?b])" using so nx by (rule starts_ok_snoc)
      moreover have "concat (map fst (futures st @ [?b])) @ [] = map concat ?gs"
        using docs' by simp
      ultimately show ?thesis
        unfolding eq using ls' gs' nx ne assms(3) by (intro seg_invI [of _ ?gs]) simp_all
    qed
  qed
qed

lemma seg_fold_inv:
  assumes "lpd = int n" and "0 < n"
  shows "seg_inv n lines (foldl (seg_line lpd bd)
     \<lparr>futures = [], doc_buf = [], line_buf = [], next_doc_id = 0\<rparr> lines)"
proof (induction lines rule: rev_induct)
  case Nil
  show ?case using assms(2) by (intro seg_invI [of _ "[]"]) (simp_all add: starts_ok_def)
next
  case (snoc line lines)
  from seg_line_inv [OF snoc assms] show ?case by simp
qed

lemma seg_finish_futures:
  "futures (seg_finish st)
     = futures st @ (if doc_buf st @ (if line_buf st = [] then [] else [concat (line_buf st)]) = [] then []
        else [(doc_buf st @ (if line_buf st = [] then [] else [concat (line_buf st)]), next_doc_id st)])"
  by (simp add: seg_finish_def Let_def)

lemma seg_finish_next:
  "next_doc_id (seg_finish st)
     = next_doc_id st + int (length (doc_buf st @ (if line_buf st = [] then [] else [concat (line_buf st)])))"
  by (simp add: seg_finish_def Let_def)

lemma segment_futures:
  assumes "1 \<le> lpd"
  shows "concat (map fst (futures (segment lpd bd lines))) = spec_documents (nat lpd) lines"
    and "starts_ok (futures (segment lpd bd lines))"
    and "\<forall>b\<in>set (futures (segment lpd bd lines)). fst b \<noteq> []"
    and "next_doc_id (segment lpd bd lines) = int (length (spec_documents (nat lpd) lines))"
proof -
  let ?n = "nat lpd"
  define st where "st = foldl (seg_line lpd bd)
     \<lparr>futures = [], doc_buf = [], line_buf = [], next_doc_id = 0\<rparr> lines"
  have seg: "segment lpd bd lines = seg_finish st"
    by (simp add: segment_def st_def)
  have n: "lpd = int ?n" "0 < ?n" using assms by simp_all
  from seg_fold_inv [OF n] have inv: "seg_inv ?n lines st" unfolding st_def .
  then obtain gs where
    ls: "lines = concat gs @ line_buf st" and gs: "\<forall>g\<in>set gs. length g = ?n"
    and docs: "concat (map fst (futures st)) @ doc_buf st = map concat gs"
    and lb: "length (line_buf st) < ?n" and so: "starts_ok (futures st)"
    and nx: "next_doc_id st = int (length (concat (map fst (futures st))))"
    and ne: "\<forall>b\<in>set (futures st). fst b \<noteq> []"
    unfolding seg_inv_def by blast
  have groups: "line_groups ?n lines = gs @ (if line_buf st = [] then [] else [line_buf st])"
    using line_groups_concat [OF n(2) gs lb] ls by simp
  define docs where "docs = doc_buf st @ (if line_buf st = [] then [] else [concat (line_buf st)])"
  have "map concat (line_groups ?n lines)
      = map concat gs @ (if line_buf st = [] then [] else [concat (line_buf st)])"
    unfolding groups by simp
  also have "\<dots> = concat (map fst (futures st)) @ docs"
    unfolding docs_def docs [symmetric] by simp
  finally have all: "concat (map fst (futures st)) @ docs = spec_documents ?n lines"
    by (simp add: spec_documents_def)
  have fut: "futures (segment lpd bd lines)
      = futures st @ (if docs = [] then [] else [(docs, next_doc_id st)])"
    unfolding seg docs_def by (rule seg_finish_futures)
  show "concat (map fst (futures (segment lpd bd lines))) = spec_documents (nat lpd) lines"
  proof (cases "docs = []")
    case True
    with all show ?thesis unfolding fut by simp
  next
    case False
    with all show ?thesis unfolding fut by simp
  qed
  show "starts_ok (futures (segment lpd bd lines))"
  proof (cases "docs = []")
    case True
    with so show ?thesis unfolding fut by simp
  next
    case False
    with starts_ok_snoc [OF so nx, of docs] show ?thesis unfolding fut by simp
  qed
  show "\<forall>b\<in>set (futures (segment lpd bd lines)). fst b \<noteq> []"
  proof (cases "docs = []")
    case True
    with ne show ?thesis unfolding fut by simp
  next
    case False
    with ne show ?thesis unfolding fut by simp
  qed
  have "next_doc_id (segment lpd bd lines) = next_doc_id st + int (length docs)"
    unfolding seg docs_def by (rule seg_finish_next)
  also have "\<dots> = int (length (concat (map fst (futures st)) @ docs))"
    using nx by simp
  finally show "next_doc_id (segment lpd bd lines) = int (length (spec_documents (nat lpd) lines))"
    unfolding all .
qed

lemma starts_ok_butlast: "starts_ok (bs @ [b]) \<Longrightarrow> starts_ok bs \<and> snd b = int (length (concat (map fst bs)))"
proof -
  assume a: "starts_ok (bs @ [b])"
  have "starts_ok bs"
    unfolding starts_ok_def
  proof (intro allI impI)
    fix j assume j: "j < length bs"
    with a have "snd ((bs @ [b]) ! j) = int (length (concat (map fst (take j (bs @ [b])))))"
      unfolding starts_ok_def by simp
    with j show "snd (bs ! j) = int (length (concat (map fst (take j bs))))"
      by (simp add: nth_append)
  qed
  moreover have "snd ((bs @ [b]) ! length bs) = int (length (concat (map fst (take (length bs) (bs @ [b])))))"
    using a [unfolded starts_ok_def, rule_format, of "length bs"] by simp
  then have "snd b = int (length (concat (map fst bs)))" by simp
  ultimately show ?thesis by blast
qed

lemma batch_ids_upt: "snd b = int N \<Longrightarrow> batch_ids b = map int [N..<N + length (fst b)]"
proof -
  assume s: "snd b = int N"
  have "batch_ids b = map (\<lambda>k. int (k + N)) [0..<length (fst b)]"
    unfolding batch_ids_def s by (rule map_cong) simp_all
  also have "\<dots> = map int (map (\<lambda>k. k + N) [0..<length (fst b)])"
    by (simp only: map_map comp_def)
  also have "map (\<lambda>k. k + N) [0..<length (fst b)] = [N..<length (fst b) + N]"
    by (rule map_add_upt)
  finally show ?thesis by (simp only: add.commute [of N])
qed

lemma batch_ids_concat:
  "starts_ok bs \<Longrightarrow> concat (map batch_ids bs) = map int [0..<length (concat (map fst bs))]"
proof (induction bs rule: rev_induct)
  case Nil
  then show ?case by simp
next
  case (snoc b bs)
  from starts_ok_butlast [OF snoc.prems] have so: "starts_ok bs"
    and s: "snd b = int (length (concat (map fst bs)))" by simp_all
  let ?N = "length (concat (map fst bs))"
  have "[0..<?N + length (fst b)] = [0..<?N] @ [?N..<?N + length (fst b)]"
    by (rule upt_add_eq_append) simp
  with snoc.IH [OF so] batch_ids_upt [OF s] show ?case by simp
qed

lemma concat_line_groups: "0 < n \<Longrightarrow> concat (line_groups n xs) = xs"
proof (induction n xs rule: line_groups.induct)
  case (1 n xs)
  show ?case
  proof (cases "xs = []")
    case True
    then show ?thesis by simp
  next
    case False
    with 1 have "concat (line_groups n (drop n xs)) = drop n xs" by simp
    with False "1.prems" show ?thesis
      by (subst line_groups.simps) simp
  qed
qed

lemma concat_map_concat: "concat (map concat xss) = concat (concat xss)"
  by (induction xss) simp_all

text \<open>
  Claim C3. With at least one line per document, the documents of the batches, taken in
  the order in which the batches are submitted, are the concatenations of the groups of
  \<^verbatim>\<open>lines_per_doc\<close> consecutive lines, the last and shorter group included, so that
  together they hold the lines in their order; every batch starts at the number of
  documents in the batches before it; the ids that the map workers give to the documents
  are 0, 1, 2, ... in the order of the input; and no batch is empty.
\<close>

theorem segmenter_documents_and_ids:
  assumes "1 \<le> lines_per_doc"
  shows "concat (map fst (futures (segment lines_per_doc batch_docs lines)))
       = spec_documents (nat lines_per_doc) lines
     \<and> concat (spec_documents (nat lines_per_doc) lines) = concat lines
     \<and> (\<forall>j<length (futures (segment lines_per_doc batch_docs lines)).
          snd (futures (segment lines_per_doc batch_docs lines) ! j)
            = int (length (concat (map fst (take j (futures (segment lines_per_doc batch_docs lines)))))))
     \<and> concat (map batch_ids (futures (segment lines_per_doc batch_docs lines)))
          = map int [0..<length (spec_documents (nat lines_per_doc) lines)]
     \<and> (\<forall>b\<in>set (futures (segment lines_per_doc batch_docs lines)). fst b \<noteq> [])"
proof -
  let ?bs = "futures (segment lines_per_doc batch_docs lines)"
  note f = segment_futures [OF assms, of batch_docs lines]
  have "0 < nat lines_per_doc" using assms by simp
  then have c: "concat (spec_documents (nat lines_per_doc) lines) = concat lines"
    unfolding spec_documents_def concat_map_concat
    by (simp add: concat_line_groups)
  have s: "\<forall>j<length ?bs. snd (?bs ! j) = int (length (concat (map fst (take j ?bs))))"
    using f(2) unfolding starts_ok_def .
  have ids: "concat (map batch_ids ?bs) = map int [0..<length (spec_documents (nat lines_per_doc) lines)]"
    using batch_ids_concat [OF f(2)] unfolding f(1) .
  from f(1) c s ids f(3) show ?thesis by (intro conjI)
qed

text \<open>Seven lines, two lines per document, two documents per batch.\<close>

theorem segmenter_documents_and_ids_witness:
  "(1 :: int) \<le> 2
   \<and> futures (segment 2 2 [[97, 10], [98, 10], [99, 10], [100, 10], [101, 10], [102, 10], [103, 10]])
       = [([[97, 10, 98, 10], [99, 10, 100, 10]], 0), ([[101, 10, 102, 10], [103, 10]], 2)]
   \<and> concat (map batch_ids
         (futures (segment 2 2 [[97, 10], [98, 10], [99, 10], [100, 10], [101, 10], [102, 10], [103, 10]])))
       = map int [0..<length (spec_documents (nat 2)
           [[97, 10], [98, 10], [99, 10], [100, 10], [101, 10], [102, 10], [103, 10]])]"
proof -
  have h: "(1 :: int) \<le> 2" by simp
  have e: "futures (segment 2 2 [[97, 10], [98, 10], [99, 10], [100, 10], [101, 10], [102, 10], [103, 10]])
       = [([[97, 10, 98, 10], [99, 10, 100, 10]], 0), ([[101, 10, 102, 10], [103, 10]], 2)]"
    by code_simp
  from segmenter_documents_and_ids [OF h, of 2 "[[97, 10], [98, 10], [99, 10], [100, 10], [101, 10], [102, 10], [103, 10]]"]
  have "concat (map batch_ids
         (futures (segment 2 2 [[97, 10], [98, 10], [99, 10], [100, 10], [101, 10], [102, 10], [103, 10]])))
       = map int [0..<length (spec_documents (nat 2)
           [[97, 10], [98, 10], [99, 10], [100, 10], [101, 10], [102, 10], [103, 10]])]"
    by blast
  with h e show ?thesis by (intro conjI)
qed

section \<open>The tables of the map phase\<close>

lemma update_absent: "k \<notin> fst ` set al \<Longrightarrow> AList.update k v al = al @ [(k, v)]"
  by (induction al) auto

lemma counter_fold:
  "distinct (map fst c) \<Longrightarrow>
   distinct (map fst (foldl counter_incr c xs))
   \<and> (\<forall>t. map_of (foldl counter_incr c xs) t
         = (if t \<in> set xs \<or> t \<in> fst ` set c then Some (counter_get c t + int (count_list xs t)) else None))"
proof (induction xs arbitrary: c)
  case Nil
  then show ?case
    by (auto simp: counter_get_def map_of_eq_None_iff split: option.splits)
next
  case (Cons x xs)
  let ?c = "counter_incr c x"
  have d: "distinct (map fst ?c)"
    using Cons.prems by (simp add: counter_incr_def distinct_update)
  have m: "map_of ?c = (map_of c)(x \<mapsto> counter_get c x + 1)"
    by (simp add: counter_incr_def update_conv')
  have dom: "fst ` set ?c = insert x (fst ` set c)"
    using m by (metis dom_fun_upd dom_map_of_conv_image_fst option.distinct(1))
  have g: "\<And>t. counter_get ?c t = (if t = x then counter_get c x + 1 else counter_get c t)"
    by (simp add: counter_get_def m)
  from Cons.IH [OF d] show ?case
    by (auto simp: dom g)
qed

lemma Counter_map_of:
  "distinct (map fst (Counter xs))"
  "map_of (Counter xs) t = (if t \<in> set xs then Some (int (count_list xs t)) else None)"
  using counter_fold [of "[]" xs] by (simp_all add: Counter_def counter_get_def)

lemma Counter_mset:
  "mset (Counter xs) = mset (map (\<lambda>t. (t, int (count_list xs t))) (remdups xs))"
proof -
  let ?ys = "map (\<lambda>t. (t, int (count_list xs t))) (remdups xs)"
  have d1: "distinct (Counter xs)"
    using Counter_map_of(1) [of xs] by (simp add: distinct_map)
  have d2: "distinct ?ys"
    by (simp add: distinct_map inj_on_def)
  have "set (Counter xs) = set ?ys"
  proof (intro set_eqI iffI)
    fix p assume p: "p \<in> set (Counter xs)"
    obtain t v where tv: "p = (t, v)" by (cases p) auto
    with p have "map_of (Counter xs) t = Some v"
      using Counter_map_of(1) [of xs] by simp
    then show "p \<in> set ?ys"
      unfolding Counter_map_of(2) tv by (auto split: if_splits)
  next
    fix p assume "p \<in> set ?ys"
    then obtain t where t: "t \<in> set xs" "p = (t, int (count_list xs t))" by auto
    then have "map_of (Counter xs) t = Some (int (count_list xs t))"
      by (simp add: Counter_map_of(2))
    then show "p \<in> set (Counter xs)"
      unfolding t(2) by (rule map_of_SomeD)
  qed
  with d1 d2 show ?thesis
    using set_eq_iff_mset_eq_distinct by blast
qed

lemma postings_rows_Cons:
  "postings_rows ((t, c) # p) = map (\<lambda>(doc_id, tf). (t, doc_id, tf)) c @ postings_rows p"
  by (simp add: postings_rows_def)

lemma postings_rows_Nil [simp]: "postings_rows [] = []"
  by (simp add: postings_rows_def)

lemma postings_rows_append: "postings_rows (p @ q) = postings_rows p @ postings_rows q"
  by (simp add: postings_rows_def)

lemma postings_rows_update_new:
  "map_of p t = None \<Longrightarrow>
   postings_rows (AList.update t c p) = postings_rows p @ map (\<lambda>(doc_id, tf). (t, doc_id, tf)) c"
proof -
  assume "map_of p t = None"
  then have "t \<notin> fst ` set p" by (simp add: map_of_eq_None_iff)
  then show ?thesis
    by (simp add: update_absent postings_rows_append postings_rows_Cons)
qed

lemma postings_rows_update_old:
  "map_of p t = Some c \<Longrightarrow>
   mset (postings_rows (AList.update t (c @ [(d, f)]) p)) = mset (postings_rows p) + {#(t, d, f)#}"
proof (induction p)
  case Nil
  then show ?case by simp
next
  case (Cons kv p)
  obtain k v where kv: "kv = (k, v)" by (cases kv) auto
  show ?case
  proof (cases "k = t")
    case True
    with Cons.prems kv have "v = c" by simp
    with True kv show ?thesis by (simp add: postings_rows_Cons)
  next
    case False
    with Cons kv show ?thesis by (simp add: postings_rows_Cons)
  qed
qed

lemma postings_row_mem:
  "map_of p t = Some c \<Longrightarrow> (d, f) \<in> set c \<Longrightarrow> (t, d, f) \<in> set (postings_rows p)"
proof -
  assume "map_of p t = Some c" and df: "(d, f) \<in> set c"
  then have "(t, c) \<in> set p" by (simp add: map_of_SomeD)
  with df show ?thesis unfolding postings_rows_def by force
qed

lemma postings_add_fresh:
  assumes "\<forall>r\<in>set (postings_rows p). row_key r \<noteq> (t, d)"
  shows "mset (postings_rows (postings_add p t d f)) = mset (postings_rows p) + {#(t, d, f)#}"
proof (cases "map_of p t")
  case None
  then show ?thesis
    by (simp add: postings_add_def counter_get_def postings_rows_update_new)
next
  case (Some c)
  have fresh: "d \<notin> fst ` set c"
  proof
    assume "d \<in> fst ` set c"
    then obtain f' where "(d, f') \<in> set c" by auto
    from postings_row_mem [OF Some this] assms show False by (auto simp: row_key_def)
  qed
  then have "map_of c d = None" by (simp add: map_of_eq_None_iff)
  then have "counter_get c d = 0" by (simp add: counter_get_def)
  with fresh have "postings_add p t d f = AList.update t (c @ [(d, f)]) p"
    by (simp add: postings_add_def Some update_absent)
  with postings_rows_update_old [OF Some] show ?thesis by simp
qed

lemma postings_fold:
  "distinct (map fst ctr) \<Longrightarrow>
   \<forall>r\<in>set (postings_rows p). fst (snd r) = d \<longrightarrow> fst r \<notin> fst ` set ctr \<Longrightarrow>
   mset (postings_rows (foldl (\<lambda>p (t, tf). postings_add p t d tf) p ctr))
     = mset (postings_rows p) + mset (map (\<lambda>(t, tf). (t, d, tf)) ctr)"
proof (induction ctr arbitrary: p)
  case Nil
  then show ?case by simp
next
  case (Cons tf ctr)
  obtain t f where tf: "tf = (t, f)" by (cases tf) auto
  have fresh: "\<forall>r\<in>set (postings_rows p). row_key r \<noteq> (t, d)"
    using Cons.prems(2) by (auto simp: tf row_key_def)
  let ?p = "postings_add p t d f"
  have rows: "mset (postings_rows ?p) = mset (postings_rows p) + {#(t, d, f)#}"
    using fresh by (rule postings_add_fresh)
  then have "set (postings_rows ?p) = insert (t, d, f) (set (postings_rows p))"
    by (metis mset_eq_setD set_mset_add_mset_insert set_mset_mset union_mset_add_mset_right add.right_neutral)
  moreover have "t \<notin> fst ` set ctr" "distinct (map fst ctr)"
    using Cons.prems(1) by (simp_all add: tf)
  ultimately have "\<forall>r\<in>set (postings_rows ?p). fst (snd r) = d \<longrightarrow> fst r \<notin> fst ` set ctr"
    using Cons.prems(2) by (auto simp: tf)
  from Cons.IH [OF \<open>distinct (map fst ctr)\<close> this] rows show ?case
    by (simp add: tf)
qed

lemma tokenize_Nil [simp]: "tokenize [] = []"
  by (simp add: tokenize_def)

lemma doc_rows_Counter:
  "mset (map (\<lambda>(t, tf). (t, d, tf)) (Counter (tokenize txt))) = mset (doc_rows d txt)"
proof -
  have "mset (map (\<lambda>(t, tf). (t, d, tf)) (Counter (tokenize txt)))
      = image_mset (\<lambda>(t, tf). (t, d, tf)) (mset (Counter (tokenize txt)))"
    by simp
  also have "\<dots> = image_mset (\<lambda>(t, tf). (t, d, tf))
      (mset (map (\<lambda>t. (t, int (count_list (tokenize txt) t))) (remdups (tokenize txt))))"
    by (simp only: Counter_mset)
  also have "\<dots> = mset (doc_rows d txt)"
    by (simp add: doc_rows_def multiset.map_comp comp_def)
  finally show ?thesis .
qed

lemma map_count_doc_rows:
  assumes "\<forall>r\<in>set (postings_rows p). fst (snd r) < d"
  shows "\<exists>p'. map_count_doc (p, d) txt = (p', d + 1)
     \<and> mset (postings_rows p') = mset (postings_rows p) + mset (doc_rows d txt)"
proof (cases "txt = []")
  case True
  then show ?thesis by (simp add: map_count_doc_def doc_rows_def)
next
  case False
  let ?ctr = "Counter (tokenize txt)"
  let ?p = "foldl (\<lambda>p (t, tf). postings_add p t d tf) p ?ctr"
  have "map_count_doc (p, d) txt = (?p, d + 1)"
    using False by (cases "?ctr = []") (simp_all add: map_count_doc_def Let_def)
  moreover have "\<forall>r\<in>set (postings_rows p). fst (snd r) = d \<longrightarrow> fst r \<notin> fst ` set ?ctr"
    using assms by auto
  from postings_fold [OF Counter_map_of(1) this]
  have "mset (postings_rows ?p) = mset (postings_rows p) + mset (doc_rows d txt)"
    by (simp only: doc_rows_Counter)
  ultimately show ?thesis by blast
qed

lemma batch_rows_Nil [simp]: "batch_rows [] s = []"
  by (simp add: batch_rows_def)

lemma batch_rows_Cons: "batch_rows (txt # docs) s = doc_rows s txt @ batch_rows docs (s + 1)"
proof -
  have "map (\<lambda>(k, txt). doc_rows (s + int k) txt) (enumerate (Suc 0) docs)
      = map (\<lambda>(k, txt). doc_rows (s + 1 + int k) txt) (enumerate 0 docs)"
    unfolding enumerate_Suc_eq [of 0 docs]
    by (simp add: comp_def case_prod_beta algebra_simps)
  then show ?thesis by (simp add: batch_rows_def)
qed

lemma doc_rows_id: "r \<in> set (doc_rows d txt) \<Longrightarrow> fst (snd r) = d"
  by (auto simp: doc_rows_def)

lemma map_count_fold:
  "\<forall>r\<in>set (postings_rows p). fst (snd r) < d \<Longrightarrow>
   \<exists>p'. foldl map_count_doc (p, d) docs = (p', d + int (length docs))
     \<and> mset (postings_rows p') = mset (postings_rows p) + mset (batch_rows docs d)"
proof (induction docs arbitrary: p d)
  case Nil
  then show ?case by simp
next
  case (Cons doc docs)
  from map_count_doc_rows [OF Cons.prems, of doc] obtain p1 where
    step: "map_count_doc (p, d) doc = (p1, d + 1)"
    and rows: "mset (postings_rows p1) = mset (postings_rows p) + mset (doc_rows d doc)"
    by blast
  have "set (postings_rows p1) = set (postings_rows p) \<union> set (doc_rows d doc)"
    using rows by (metis mset_append mset_eq_setD set_append)
  with Cons.prems have "\<forall>r\<in>set (postings_rows p1). fst (snd r) < d + 1"
    by (auto dest: doc_rows_id)
  from Cons.IH [OF this] obtain p' where
    "foldl map_count_doc (p1, d + 1) docs = (p', d + 1 + int (length docs))"
    "mset (postings_rows p') = mset (postings_rows p1) + mset (batch_rows docs (d + 1))"
    by blast
  with step rows show ?case
    by (simp add: batch_rows_Cons add.assoc)
qed

lemma map_count_docs_rows:
  "snd (map_count_docs docs start) = length docs"
  "mset (postings_rows (fst (map_count_docs docs start))) = mset (batch_rows docs start)"
proof -
  have "\<forall>r\<in>set (postings_rows []). fst (snd r) < start" by simp
  from map_count_fold [OF this, of docs] obtain p' where
    "foldl map_count_doc ([], start) docs = (p', start + int (length docs))"
    "mset (postings_rows p') = mset (postings_rows []) + mset (batch_rows docs start)"
    by blast
  then show "mset (postings_rows (fst (map_count_docs docs start))) = mset (batch_rows docs start)"
    by (simp add: map_count_docs_def)
  show "snd (map_count_docs docs start) = length docs"
    by (simp add: map_count_docs_def)
qed

lemma batch_rows_mem:
  "r \<in> set (batch_rows docs s) \<longleftrightarrow> (\<exists>j<length docs. r \<in> set (doc_rows (s + int j) (docs ! j)))"
proof
  assume "r \<in> set (batch_rows docs s)"
  then obtain p where p: "p \<in> set (enumerate 0 docs)" and r: "r \<in> set (doc_rows (s + int (fst p)) (snd p))"
    by (auto simp: batch_rows_def)
  from p have "fst p < length docs" "docs ! fst p = snd p"
    by (simp_all add: in_set_enumerate_eq)
  with r show "\<exists>j<length docs. r \<in> set (doc_rows (s + int j) (docs ! j))" by auto
next
  assume "\<exists>j<length docs. r \<in> set (doc_rows (s + int j) (docs ! j))"
  then obtain j where j: "j < length docs" and r: "r \<in> set (doc_rows (s + int j) (docs ! j))" by blast
  from j have "(j, docs ! j) \<in> set (enumerate 0 docs)"
    by (simp add: in_set_enumerate_eq)
  with r show "r \<in> set (batch_rows docs s)"
    unfolding batch_rows_def by force
qed

text \<open>
  Claim C8. A document of the batch whose text yields no token, the empty text among
  them, is counted in the number of documents that \<^verbatim>\<open>map_count_docs\<close> returns and takes
  its id, the start of the batch plus its position: the table holds no entry under that id,
  for any term, and every term of every document \<open>j\<close> of the batch is in the table under
  the id \<open>start + j\<close> with its frequency in that document. No branch of the function
  raises.
\<close>

theorem empty_document_keeps_its_id:
  assumes "k < length docs" and "tokenize (docs ! k) = []"
  shows "snd (map_count_docs docs start) = length docs
     \<and> (\<forall>r\<in>set (postings_rows (fst (map_count_docs docs start))). fst (snd r) \<noteq> start + int k)
     \<and> (\<forall>t c. map_of (fst (map_count_docs docs start)) t = Some c \<longrightarrow> start + int k \<notin> fst ` set c)
     \<and> (\<forall>j<length docs. \<forall>t\<in>set (tokenize (docs ! j)).
          (t, start + int j, int (count_list (tokenize (docs ! j)) t))
            \<in> set (postings_rows (fst (map_count_docs docs start))))"
proof -
  let ?p = "fst (map_count_docs docs start)"
  have rows: "set (postings_rows ?p) = set (batch_rows docs start)"
    using map_count_docs_rows(2) [of docs start] by (rule mset_eq_setD)
  have a: "\<forall>r\<in>set (postings_rows ?p). fst (snd r) \<noteq> start + int k"
  proof
    fix r assume "r \<in> set (postings_rows ?p)"
    then obtain j where j: "j < length docs" and r: "r \<in> set (doc_rows (start + int j) (docs ! j))"
      unfolding rows batch_rows_mem by blast
    from r have id: "fst (snd r) = start + int j" by (rule doc_rows_id)
    from r assms(2) have "j \<noteq> k" by (auto simp: doc_rows_def)
    with id show "fst (snd r) \<noteq> start + int k" by simp
  qed
  have b: "\<forall>t c. map_of ?p t = Some c \<longrightarrow> start + int k \<notin> fst ` set c"
  proof (intro allI impI notI)
    fix t c assume m: "map_of ?p t = Some c" and "start + int k \<in> fst ` set c"
    then obtain f where "(start + int k, f) \<in> set c" by auto
    from postings_row_mem [OF m this] a show False by auto
  qed
  have c: "\<forall>j<length docs. \<forall>t\<in>set (tokenize (docs ! j)).
          (t, start + int j, int (count_list (tokenize (docs ! j)) t)) \<in> set (postings_rows ?p)"
  proof (intro allI impI ballI)
    fix j t assume j: "j < length docs" and t: "t \<in> set (tokenize (docs ! j))"
    from t have "(t, start + int j, int (count_list (tokenize (docs ! j)) t))
        \<in> set (doc_rows (start + int j) (docs ! j))"
      by (simp add: doc_rows_def)
    with j show "(t, start + int j, int (count_list (tokenize (docs ! j)) t)) \<in> set (postings_rows ?p)"
      unfolding rows batch_rows_mem by blast
  qed
  from map_count_docs_rows(1) [of docs start] a b c show ?thesis by (intro conjI)
qed

text \<open>The batch \<^verbatim>\<open>["a a", "", "b"]\<close> starting at 7: the ids 7 and 9 are in the table.\<close>

theorem empty_document_keeps_its_id_witness:
  "(1 :: nat) < length [[97, 32, 97], [], [98 :: nat]] \<and> tokenize ([[97, 32, 97], [], [98]] ! 1) = []
   \<and> map_count_docs [[97, 32, 97], [], [98]] 7 = ([([97], [(7, 2)]), ([98], [(9, 1)])], 3)
   \<and> snd (map_count_docs [[97, 32, 97], [], [98]] 7) = length [[97, 32, 97], [], [98 :: nat]]"
proof -
  have h1: "(1 :: nat) < length [[97, 32, 97], [], [98 :: nat]]" by simp
  have h2: "tokenize ([[97, 32, 97], [], [98]] ! 1) = []" by simp
  have e: "map_count_docs [[97, 32, 97], [], [98]] 7 = ([([97], [(7, 2)]), ([98], [(9, 1)])], 3)"
    by code_simp
  from empty_document_keeps_its_id [OF h1 h2, of 7]
  have "snd (map_count_docs [[97, 32, 97], [], [98]] 7) = length [[97, 32, 97], [], [98 :: nat]]"
    by blast
  with h1 h2 e show ?thesis by (intro conjI)
qed

section \<open>The files of a build\<close>

lemma digits_value_zeros: "digits_value (replicate k 48 @ s) = digits_value s"
proof (induction k)
  case 0
  then show ?case by simp
next
  case (Suc k)
  have "foldl (\<lambda>a c. 10 * a + (c - 48)) 0 (48 # replicate k 48 @ s)
      = foldl (\<lambda>a c. 10 * a + (c - 48)) 0 (replicate k 48 @ s)"
    by simp
  with Suc show ?case by (simp add: digits_value_def)
qed

lemma zero_pad_inj: "zero_pad w a = zero_pad w b \<Longrightarrow> a = b"
proof -
  assume "zero_pad w a = zero_pad w b"
  then have "digits_value (zero_pad w a) = digits_value (zero_pad w b)" by simp
  then show ?thesis
    by (simp add: zero_pad_def digits_value_zeros digits_value_str_nat)
qed

lemma chunk_name_inj: "chunk_name a = chunk_name b \<Longrightarrow> a = b"
  by (simp add: chunk_name_def zero_pad_inj)

lemma shard_name_inj: "shard_name base a = shard_name base b \<Longrightarrow> a = b"
  by (simp add: shard_name_def zero_pad_inj)

lemma shard_name_not_summary: "shard_name (lit ''index'') k \<noteq> lit ''resumen.txt''"
  by (simp add: shard_name_def lit_def)

lemma file_at_write_file [simp]: "file_at (write_file p t fs) = (file_at fs)(p \<mapsto> t)"
  by (rule ext) (simp add: file_at_def write_file_def update_conv')

lemma dirs_write_file [simp]: "dirs (write_file p t fs) = dirs fs"
  by (simp add: write_file_def)

lemma file_at_os_remove [simp]: "file_at (os_remove p fs) = (file_at fs)(p := None)"
  by (rule ext) (simp add: file_at_def os_remove_def delete_conv')

lemma dirs_os_remove [simp]: "dirs (os_remove p fs) = dirs fs"
  by (simp add: os_remove_def)

lemma file_at_os_makedirs [simp]: "file_at (os_makedirs d fs) = file_at fs"
  by (rule ext) (simp add: file_at_def os_makedirs_def)

lemma dirs_os_makedirs [simp]: "dirs (os_makedirs d fs) = insert d (dirs fs)"
  by (simp add: os_makedirs_def)

lemma read_file_file_at: "read_file fs p = (case file_at fs p of None \<Rightarrow> Inl FileNotFoundError | Some t \<Rightarrow> Inr t)"
  by (simp add: read_file_def file_at_def)

lemma os_rmdir_empty:
  assumes "d \<in> dirs fs" and "\<forall>p. file_at fs p \<noteq> None \<longrightarrow> fst p \<noteq> d"
  shows "dirs (os_rmdir d fs) = dirs fs - {d}" and "file_at (os_rmdir d fs) = file_at fs"
proof -
  have "filter (\<lambda>(p, text). fst p = d) (files fs) = []"
  proof (rule ccontr)
    assume "filter (\<lambda>(p, text). fst p = d) (files fs) \<noteq> []"
    then obtain p t where pt: "(p, t) \<in> set (files fs)" and "fst p = d"
      by (auto simp: filter_empty_conv)
    from pt have "p \<in> fst ` set (files fs)" by force
    then have "file_at fs p \<noteq> None"
      by (simp add: file_at_def map_of_eq_None_iff)
    with assms(2) \<open>fst p = d\<close> show False by blast
  qed
  with assms(1) have eq: "os_rmdir d fs = fs\<lparr>dirs := dirs fs - {d}\<rparr>"
    by (simp add: os_rmdir_def)
  show "dirs (os_rmdir d fs) = dirs fs - {d}" unfolding eq by simp
  show "file_at (os_rmdir d fs) = file_at fs" unfolding eq by (rule ext) (simp add: file_at_def)
qed

lemma open_all_texts:
  "list_all2 (\<lambda>p t. file_at fs p = Some t) ps ts \<Longrightarrow> open_all fs ps = Inr ts"
  by (induction ps ts rule: list_all2_induct) (simp_all add: read_file_file_at)

lemma remove_all:
  "file_at (foldl (\<lambda>fs p. os_remove p fs) fs ps) q = (if q \<in> set ps then None else file_at fs q)"
  "dirs (foldl (\<lambda>fs p. os_remove p fs) fs ps) = dirs fs"
  by (induction ps arbitrary: fs) auto

lemma store_shards_files:
  "dirs (store_shards outdir base shards fs) = dirs fs"
  "k < length shards \<Longrightarrow>
     file_at (store_shards outdir base shards fs) (outdir, shard_name base k) = Some (shards ! k)"
  "\<forall>k<length shards. q \<noteq> (outdir, shard_name base k) \<Longrightarrow>
     file_at (store_shards outdir base shards fs) q = file_at fs q"
proof -
  have "dirs (store_shards outdir base shards fs) = dirs fs
     \<and> (\<forall>k<length shards. file_at (store_shards outdir base shards fs) (outdir, shard_name base k) = Some (shards ! k))
     \<and> (\<forall>q. (\<forall>k<length shards. q \<noteq> (outdir, shard_name base k)) \<longrightarrow>
           file_at (store_shards outdir base shards fs) q = file_at fs q)"
  proof (induction shards rule: rev_induct)
    case Nil
    then show ?case by (simp add: store_shards_def)
  next
    case (snoc x xs)
    let ?fs = "store_shards outdir base xs fs"
    have step: "store_shards outdir base (xs @ [x]) fs
        = write_file (outdir, shard_name base (length xs)) x ?fs"
      by (simp add: store_shards_def enumerate_append_eq os_path_join_def)
    have "\<forall>k<length (xs @ [x]). file_at (store_shards outdir base (xs @ [x]) fs) (outdir, shard_name base k)
        = Some ((xs @ [x]) ! k)"
    proof (intro allI impI)
      fix k assume "k < length (xs @ [x])"
      then consider "k < length xs" | "k = length xs" by fastforce
      then show "file_at (store_shards outdir base (xs @ [x]) fs) (outdir, shard_name base k)
          = Some ((xs @ [x]) ! k)"
      proof cases
        case 1
        then have "shard_name base k \<noteq> shard_name base (length xs)"
          using shard_name_inj by blast
        with 1 snoc show ?thesis by (simp add: step nth_append)
      next
        case 2
        then show ?thesis by (simp add: step)
      qed
    qed
    moreover have "\<forall>q. (\<forall>k<length (xs @ [x]). q \<noteq> (outdir, shard_name base k)) \<longrightarrow>
           file_at (store_shards outdir base (xs @ [x]) fs) q = file_at fs q"
      using snoc by (simp add: step less_Suc_eq)
    moreover have "dirs (store_shards outdir base (xs @ [x]) fs) = dirs fs"
      using snoc by (simp add: step)
    ultimately show ?case by blast
  qed
  then show "dirs (store_shards outdir base shards fs) = dirs fs"
    and "k < length shards \<Longrightarrow>
     file_at (store_shards outdir base shards fs) (outdir, shard_name base k) = Some (shards ! k)"
    and "\<forall>k<length shards. q \<noteq> (outdir, shard_name base k) \<Longrightarrow>
     file_at (store_shards outdir base shards fs) q = file_at fs q"
    by blast+
qed

lemma spill_future_eq:
  "spill_future tmp_dir st fut =
     \<lparr>fsys = write_file (tmp_dir, chunk_name (chunk_idx st)) (chunk_text (postings_of fut)) (fsys st),
      total_docs = total_docs st + length (fst fut),
      chunk_paths = chunk_paths st @ [(tmp_dir, chunk_name (chunk_idx st))],
      chunk_idx = chunk_idx st + 1\<rparr>"
  by (cases fut)
     (simp add: spill_future_def spill_sorted_chunk_def postings_of_def map_count_docs_def
        os_path_join_def Let_def)

lemma spill_fold:
  "chunk_idx (spill_all tmp_dir fs futs) = length futs
     \<and> chunk_paths (spill_all tmp_dir fs futs) = map (\<lambda>i. (tmp_dir, chunk_name i)) [0..<length futs]
     \<and> total_docs (spill_all tmp_dir fs futs) = sum_list (map (\<lambda>f. length (fst f)) futs)
     \<and> dirs (fsys (spill_all tmp_dir fs futs)) = dirs fs
     \<and> (\<forall>i<length futs. file_at (fsys (spill_all tmp_dir fs futs)) (tmp_dir, chunk_name i)
           = Some (chunk_text (postings_of (futs ! i))))
     \<and> (\<forall>q. (\<forall>i<length futs. q \<noteq> (tmp_dir, chunk_name i)) \<longrightarrow>
           file_at (fsys (spill_all tmp_dir fs futs)) q = file_at fs q)"
proof (induction futs rule: rev_induct)
  case Nil
  then show ?case by (simp add: spill_all_def)
next
  case (snoc fut futs)
  let ?st = "spill_all tmp_dir fs futs"
  have step: "spill_all tmp_dir fs (futs @ [fut]) = spill_future tmp_dir ?st fut"
    by (simp add: spill_all_def)
  from snoc have idx: "chunk_idx ?st = length futs"
    and paths: "chunk_paths ?st = map (\<lambda>i. (tmp_dir, chunk_name i)) [0..<length futs]"
    and total: "total_docs ?st = sum_list (map (\<lambda>f. length (fst f)) futs)"
    and ds: "dirs (fsys ?st) = dirs fs"
    and old: "\<forall>i<length futs. file_at (fsys ?st) (tmp_dir, chunk_name i)
           = Some (chunk_text (postings_of (futs ! i)))"
    and other: "\<forall>q. (\<forall>i<length futs. q \<noteq> (tmp_dir, chunk_name i)) \<longrightarrow>
           file_at (fsys ?st) q = file_at fs q"
    by blast+
  have a: "chunk_idx (spill_all tmp_dir fs (futs @ [fut])) = length (futs @ [fut])"
    by (simp add: step spill_future_eq idx)
  have b: "chunk_paths (spill_all tmp_dir fs (futs @ [fut])) = map (\<lambda>i. (tmp_dir, chunk_name i)) [0..<length (futs @ [fut])]"
    by (simp add: step spill_future_eq idx paths)
  have c: "total_docs (spill_all tmp_dir fs (futs @ [fut])) = sum_list (map (\<lambda>f. length (fst f)) (futs @ [fut]))"
    by (simp add: step spill_future_eq total)
  have d: "dirs (fsys (spill_all tmp_dir fs (futs @ [fut]))) = dirs fs"
    by (simp add: step spill_future_eq ds)
  have e: "\<forall>i<length (futs @ [fut]). file_at (fsys (spill_all tmp_dir fs (futs @ [fut]))) (tmp_dir, chunk_name i)
           = Some (chunk_text (postings_of ((futs @ [fut]) ! i)))"
  proof (intro allI impI)
    fix i assume "i < length (futs @ [fut])"
    then consider "i < length futs" | "i = length futs" by fastforce
    then show "file_at (fsys (spill_all tmp_dir fs (futs @ [fut]))) (tmp_dir, chunk_name i)
           = Some (chunk_text (postings_of ((futs @ [fut]) ! i)))"
    proof cases
      case 1
      then have "chunk_name i \<noteq> chunk_name (length futs)"
        using chunk_name_inj by blast
      with 1 old show ?thesis by (simp add: step spill_future_eq idx nth_append)
    next
      case 2
      then show ?thesis by (simp add: step spill_future_eq idx)
    qed
  qed
  have f: "\<forall>q. (\<forall>i<length (futs @ [fut]). q \<noteq> (tmp_dir, chunk_name i)) \<longrightarrow>
           file_at (fsys (spill_all tmp_dir fs (futs @ [fut]))) q = file_at fs q"
    using other by (simp add: step spill_future_eq idx less_Suc_eq)
  from a b c d e f show ?case by (intro conjI)
qed

section \<open>The whole build\<close>

lemma chunk_text_rows: "chunk_text p = rows_text (chunk_rows p)"
  by (simp add: chunk_text_def rows_text_def)

lemma mset_chunk_rows: "mset (chunk_rows (postings_of f)) = mset (batch_rows (fst f) (snd f))"
  by (simp add: chunk_rows_def postings_of_def map_count_docs_rows(2))

lemma token_char_clean: "token_char c \<Longrightarrow> c \<noteq> 9 \<and> c \<noteq> 10 \<and> c \<noteq> 13"
  unfolding token_char_def by arith

lemma token_clean: "t \<in> set (tokenize s) \<Longrightarrow> clean_term t"
  using tokenize_chars [of t s] token_char_clean unfolding clean_term_def by blast

lemma batch_rows_clean: "r \<in> set (batch_rows docs s) \<Longrightarrow> clean_row r"
  unfolding batch_rows_mem by (auto simp: doc_rows_def clean_row_def token_clean)

lemma chunk_rows_clean: "r \<in> set (chunk_rows (postings_of f)) \<Longrightarrow> clean_row r"
proof -
  assume "r \<in> set (chunk_rows (postings_of f))"
  then have "r \<in># mset (chunk_rows (postings_of f))" by simp
  then have "r \<in> set (batch_rows (fst f) (snd f))"
    unfolding mset_chunk_rows by simp
  then show ?thesis by (rule batch_rows_clean)
qed

lemma batch_rows_append:
  "batch_rows (xs @ ys) s = batch_rows xs s @ batch_rows ys (s + int (length xs))"
  by (induction xs arbitrary: s) (simp_all add: batch_rows_Cons algebra_simps)

lemma batches_rows:
  "starts_ok bs \<Longrightarrow>
   concat (map (\<lambda>f. batch_rows (fst f) (snd f)) bs) = batch_rows (concat (map fst bs)) 0"
proof (induction bs rule: rev_induct)
  case Nil
  then show ?case by simp
next
  case (snoc b bs)
  from starts_ok_butlast [OF snoc.prems] have so: "starts_ok bs"
    and s: "snd b = int (length (concat (map fst bs)))" by simp_all
  from snoc.IH [OF so] show ?case
    by (simp add: batch_rows_append s)
qed

lemma mset_concat_map_perm:
  "mset xs = mset ys \<Longrightarrow> mset (concat (map f xs)) = mset (concat (map f ys))"
proof -
  assume "mset xs = mset ys"
  then have "image_mset (\<lambda>x. mset (f x)) (mset xs) = image_mset (\<lambda>x. mset (f x)) (mset ys)"
    by simp
  then have "sum_mset (image_mset (\<lambda>x. mset (f x)) (mset xs))
      = sum_mset (image_mset (\<lambda>x. mset (f x)) (mset ys))"
    by simp
  then show ?thesis
    by (simp add: mset_concat comp_def flip: sum_mset_sum_list)
qed

lemma mset_concat_map_cong:
  "(\<And>x. x \<in> set xs \<Longrightarrow> mset (g x) = mset (h x)) \<Longrightarrow>
   mset (concat (map g xs)) = mset (concat (map h xs))"
  by (induction xs) simp_all

lemma merge_spilled:
  "\<exists>rows. merge_sorted_chunks (chunk_paths (spill_all tmp_dir fs cs)) outdir m base
        (fsys (spill_all tmp_dir fs cs))
      = Inr (store_shards outdir base (fst (merge_result m rows))
               (os_makedirs outdir (fsys (spill_all tmp_dir fs cs))),
             fst (snd (merge_result m rows)), snd (snd (merge_result m rows)))
     \<and> mset rows = mset (concat (map (\<lambda>f. batch_rows (fst f) (snd f)) cs))
     \<and> (\<forall>r\<in>set rows. clean_row r)"
proof -
  let ?sp = "spill_all tmp_dir fs cs"
  let ?fs1 = "os_makedirs outdir (fsys ?sp)"
  let ?runs = "map (\<lambda>f. chunk_rows (postings_of f)) cs"
  let ?texts = "map rows_text ?runs"
  note sf = spill_fold [of tmp_dir fs cs]
  have paths: "chunk_paths ?sp = map (\<lambda>i. (tmp_dir, chunk_name i)) [0..<length cs]"
    using sf by blast
  have files: "\<forall>i<length cs. file_at (fsys ?sp) (tmp_dir, chunk_name i)
           = Some (chunk_text (postings_of (cs ! i)))"
    using sf by blast
  have "list_all2 (\<lambda>p t. file_at ?fs1 p = Some t) (chunk_paths ?sp) ?texts"
    unfolding list_all2_conv_all_nth paths
    using files by (simp add: chunk_text_rows)
  then have op: "open_all ?fs1 (chunk_paths ?sp) = Inr ?texts"
    by (rule open_all_texts)
  have clean: "\<forall>run\<in>set ?runs. \<forall>r\<in>set run. clean_row r"
    using chunk_rows_clean by auto
  have srt: "\<And>i run. (i, run) \<in> set (enumerate 0 ?runs)
      \<Longrightarrow> sorted (map (\<lambda>x :: item. 0 :: nat) (map (tag i) run))"
    using sorted_const by (simp add: comp_def)
  from merge_runs_good [of ?runs "\<lambda>x. 0 :: nat" m, OF clean _ srt] obtain items where
    run: "merge_runs ?texts m = Inr (merge_result m (map item_row items))"
    and ms: "mset items = mset (tagged_rows 0 ?runs)"
    by auto
  let ?rows = "map item_row items"
  have "mset ?rows = mset (map item_row (tagged_rows 0 ?runs))"
    using ms by (metis mset_map)
  then have "mset ?rows = mset (concat ?runs)"
    by (simp only: map_item_row_tagged)
  also have "\<dots> = mset (concat (map (\<lambda>f. batch_rows (fst f) (snd f)) cs))"
    unfolding map_map comp_def
    by (rule mset_concat_map_cong) (rule mset_chunk_rows)
  finally have mrows: "mset ?rows = mset (concat (map (\<lambda>f. batch_rows (fst f) (snd f)) cs))" .
  have crows: "\<forall>r\<in>set ?rows. clean_row r"
  proof
    fix r assume "r \<in> set ?rows"
    then have "r \<in># mset ?rows" by simp
    then have "r \<in> set (concat (map (\<lambda>f. batch_rows (fst f) (snd f)) cs))"
      unfolding mrows by simp
    then show "clean_row r" by (auto intro: batch_rows_clean)
  qed
  have "merge_sorted_chunks (chunk_paths ?sp) outdir m base (fsys ?sp)
      = Inr (store_shards outdir base (fst (merge_result m ?rows)) ?fs1,
             fst (snd (merge_result m ?rows)), snd (snd (merge_result m ?rows)))"
    unfolding merge_sorted_chunks_def Let_def op sum.case run
    by (simp add: case_prod_beta)
  with mrows crows show ?thesis by blast
qed

lemma no_file_in_dir:
  "filter (\<lambda>(p, t). fst p = d) (files fs) = [] \<Longrightarrow> fst p = d \<Longrightarrow> file_at fs p = None"
proof -
  assume e: "filter (\<lambda>(p, t). fst p = d) (files fs) = []" and d: "fst p = d"
  have "p \<notin> fst ` set (files fs)"
  proof
    assume "p \<in> fst ` set (files fs)"
    then obtain t where "(p, t) \<in> set (files fs)" by auto
    with d have "(p, t) \<in> set (filter (\<lambda>(p, t). fst p = d) (files fs))" by simp
    with e show False by simp
  qed
  then show ?thesis by (simp add: file_at_def map_of_eq_None_iff)
qed

lemma build_result:
  assumes inp: "file_at fs input_path = Some text"
    and fresh: "tmp_dir \<notin> dirs fs" "tmp_dir \<noteq> outdir"
      "filter (\<lambda>(p, t). fst p = tmp_dir) (files fs) = []"
  shows "\<exists>rows fs'.
     build_inverted_index input_path outdir lpd bd m tmp_dir as_completed elapsed fs = Inr fs'
     \<and> mset rows = mset (concat (map (\<lambda>f. batch_rows (fst f) (snd f))
           (as_completed (futures (segment lpd bd (readlines text))))))
     \<and> (\<forall>r\<in>set rows. clean_row r)
     \<and> dirs fs' = insert outdir (dirs fs)
     \<and> (\<forall>k<length (fst (merge_result m rows)).
           file_at fs' (outdir, shard_name (lit ''index'') k) = Some (fst (merge_result m rows) ! k))
     \<and> (\<forall>q. q \<noteq> (outdir, lit ''resumen.txt'')
            \<and> (\<forall>k<length (fst (merge_result m rows)). q \<noteq> (outdir, shard_name (lit ''index'') k))
          \<longrightarrow> file_at fs' q = file_at fs q)
     \<and> file_at fs' (outdir, lit ''resumen.txt'')
         = Some (summary_text outdir lpd
             (sum_list (map (\<lambda>f. length (fst f)) (as_completed (futures (segment lpd bd (readlines text))))))
             (fst (snd (merge_result m rows))) (snd (snd (merge_result m rows))) elapsed)"
proof -
  define fs2 where "fs2 = os_makedirs tmp_dir (os_makedirs outdir fs)"
  define cs where "cs = as_completed (futures (segment lpd bd (readlines text)))"
  define sp where "sp = spill_all tmp_dir fs2 cs"
  have f2: "file_at fs2 = file_at fs" and d2: "dirs fs2 = insert tmp_dir (insert outdir (dirs fs))"
    by (simp_all add: fs2_def)
  have rd: "read_file fs2 input_path = Inr text"
    by (simp add: read_file_file_at f2 inp)
  from merge_spilled [of tmp_dir fs2 cs outdir m "lit ''index''"] obtain rows where
    mg: "merge_sorted_chunks (chunk_paths sp) outdir m (lit ''index'') (fsys sp)
      = Inr (store_shards outdir (lit ''index'') (fst (merge_result m rows)) (os_makedirs outdir (fsys sp)),
             fst (snd (merge_result m rows)), snd (snd (merge_result m rows)))"
    and mrows: "mset rows = mset (concat (map (\<lambda>f. batch_rows (fst f) (snd f)) cs))"
    and crows: "\<forall>r\<in>set rows. clean_row r"
    unfolding sp_def by blast
  define shards where "shards = fst (merge_result m rows)"
  define fs3 where "fs3 = store_shards outdir (lit ''index'') shards (os_makedirs outdir (fsys sp))"
  define fs4 where "fs4 = foldl (\<lambda>fs p. os_remove p fs) fs3 (chunk_paths sp)"
  define fs5 where "fs5 = os_rmdir tmp_dir fs4"
  define summ where "summ = summary_text outdir lpd (total_docs sp)
      (fst (snd (merge_result m rows))) (snd (snd (merge_result m rows))) elapsed"
  define fs' where "fs' = write_file (outdir, lit ''resumen.txt'') summ fs5"
  have build: "build_inverted_index input_path outdir lpd bd m tmp_dir as_completed elapsed fs = Inr fs'"
    unfolding build_inverted_index_def Let_def
    unfolding fs2_def [symmetric] rd sum.case cs_def [symmetric] spill_all_def [symmetric]
      sp_def [symmetric] mg
    by (simp add: fs'_def fs5_def fs4_def fs3_def shards_def summ_def os_path_join_def
          case_prod_beta)
  note sf = spill_fold [of tmp_dir fs2 cs, folded sp_def]
  have paths: "chunk_paths sp = map (\<lambda>i. (tmp_dir, chunk_name i)) [0..<length cs]"
    using sf by blast
  have sp_dirs: "dirs (fsys sp) = dirs fs2" using sf by blast
  have sp_other: "\<And>q. fst q \<noteq> tmp_dir \<Longrightarrow> file_at (fsys sp) q = file_at fs q"
  proof -
    fix q :: path assume "fst q \<noteq> tmp_dir"
    then have "\<forall>i<length cs. q \<noteq> (tmp_dir, chunk_name i)" by auto
    with sf have "file_at (fsys sp) q = file_at fs2 q" by blast
    then show "file_at (fsys sp) q = file_at fs q" by (simp add: f2)
  qed
  have in_tmp: "\<And>q. q \<in> set (chunk_paths sp) \<Longrightarrow> fst q = tmp_dir"
    unfolding paths by auto
  have d3: "dirs fs3 = insert tmp_dir (insert outdir (dirs fs))"
    unfolding fs3_def by (simp add: store_shards_files(1) sp_dirs d2 insert_commute)
  have f3_shard: "\<And>k. k < length shards \<Longrightarrow>
      file_at fs3 (outdir, shard_name (lit ''index'') k) = Some (shards ! k)"
    unfolding fs3_def by (rule store_shards_files(2))
  have f3_other: "\<And>q. \<forall>k<length shards. q \<noteq> (outdir, shard_name (lit ''index'') k) \<Longrightarrow>
      file_at fs3 q = file_at (fsys sp) q"
    unfolding fs3_def using store_shards_files(3) [of shards _ outdir "lit ''index''"] by simp
  have f4: "\<And>q. file_at fs4 q = (if q \<in> set (chunk_paths sp) then None else file_at fs3 q)"
    and d4: "dirs fs4 = dirs fs3"
    unfolding fs4_def by (simp_all add: remove_all)
  have tmp_empty: "\<forall>p. file_at fs4 p \<noteq> None \<longrightarrow> fst p \<noteq> tmp_dir"
  proof (intro allI impI notI)
    fix p :: path assume ne: "file_at fs4 p \<noteq> None" and t: "fst p = tmp_dir"
    from ne have nc: "p \<notin> set (chunk_paths sp)" and n3: "file_at fs3 p \<noteq> None"
      by (auto simp: f4 split: if_splits)
    have "\<forall>k<length shards. p \<noteq> (outdir, shard_name (lit ''index'') k)"
      using t fresh(2) by auto
    then have "file_at fs3 p = file_at (fsys sp) p" by (rule f3_other)
    moreover from nc have "\<forall>i<length cs. p \<noteq> (tmp_dir, chunk_name i)"
      unfolding paths by auto
    with sf have "file_at (fsys sp) p = file_at fs2 p" by blast
    ultimately have "file_at fs3 p = file_at fs p" by (simp add: f2)
    with n3 no_file_in_dir [OF fresh(3) t] show False by simp
  qed
  have "tmp_dir \<in> dirs fs4" by (simp add: d4 d3)
  from os_rmdir_empty [OF this tmp_empty]
  have d5: "dirs fs5 = insert outdir (dirs fs)" and f5: "file_at fs5 = file_at fs4"
    using fresh(1,2) by (auto simp: fs5_def d4 d3)
  have c1: "dirs fs' = insert outdir (dirs fs)"
    by (simp add: fs'_def d5)
  have c2: "\<forall>k<length shards. file_at fs' (outdir, shard_name (lit ''index'') k) = Some (shards ! k)"
  proof (intro allI impI)
    fix k assume k: "k < length shards"
    have "(outdir, shard_name (lit ''index'') k) \<notin> set (chunk_paths sp)"
      using in_tmp fresh(2) by fastforce
    with f3_shard [OF k] shard_name_not_summary [of k]
    show "file_at fs' (outdir, shard_name (lit ''index'') k) = Some (shards ! k)"
      by (simp add: fs'_def f5 f4)
  qed
  have c3: "\<forall>q. q \<noteq> (outdir, lit ''resumen.txt'')
            \<and> (\<forall>k<length shards. q \<noteq> (outdir, shard_name (lit ''index'') k))
          \<longrightarrow> file_at fs' q = file_at fs q"
  proof (intro allI impI)
    fix q :: path
    assume q: "q \<noteq> (outdir, lit ''resumen.txt'')
            \<and> (\<forall>k<length shards. q \<noteq> (outdir, shard_name (lit ''index'') k))"
    then have a: "file_at fs' q = file_at fs4 q" by (simp add: fs'_def f5)
    show "file_at fs' q = file_at fs q"
    proof (cases "fst q = tmp_dir")
      case True
      then have "file_at fs4 q = None" using tmp_empty by blast
      with a no_file_in_dir [OF fresh(3) True] show ?thesis by simp
    next
      case False
      then have "q \<notin> set (chunk_paths sp)" using in_tmp by blast
      then have "file_at fs4 q = file_at fs3 q" by (simp add: f4)
      also have "\<dots> = file_at (fsys sp) q" using q by (intro f3_other) blast
      also have "\<dots> = file_at fs q" using False by (rule sp_other)
      finally show ?thesis using a by simp
    qed
  qed
  have "total_docs sp = sum_list (map (\<lambda>f. length (fst f)) cs)"
    using sf by blast
  then have c4: "file_at fs' (outdir, lit ''resumen.txt'')
      = Some (summary_text outdir lpd (sum_list (map (\<lambda>f. length (fst f)) cs))
          (fst (snd (merge_result m rows))) (snd (snd (merge_result m rows))) elapsed)"
    by (simp add: fs'_def summ_def)
  from build mrows crows c1 c2 c3 c4 show ?thesis
    unfolding cs_def shards_def by blast
qed

lemma dir_empty:
  "\<forall>p. fst p = d \<longrightarrow> file_at fs p = None \<Longrightarrow> filter (\<lambda>(p, t). fst p = d) (files fs) = []"
proof (rule ccontr)
  assume a: "\<forall>p. fst p = d \<longrightarrow> file_at fs p = None"
    and "filter (\<lambda>(p, t). fst p = d) (files fs) \<noteq> []"
  then obtain p t where pt: "(p, t) \<in> set (files fs)" and "fst p = d"
    by (auto simp: filter_empty_conv)
  from pt have "p \<in> fst ` set (files fs)" by force
  then have "file_at fs p \<noteq> None"
    by (simp add: file_at_def map_of_eq_None_iff)
  moreover from a \<open>fst p = d\<close> have "file_at fs p = None" by (cases p) auto
  ultimately show False by simp
qed

text \<open>
  Claim C9. The input file exists and \<open>tmp_dir\<close> is the fresh directory of
  \<^verbatim>\<open>tempfile.mkdtemp\<close>: it does not exist yet, it is not the output directory and no file
  lies in it. Then \<^verbatim>\<open>build_inverted_index\<close> returns, and afterwards the temporary
  directory is gone and no file lies in it, so no run file is left; the directories are
  those from before and the output directory; and the only files that were created or
  changed are in the output directory and are named \<^verbatim>\<open>resumen.txt\<close> or like a shard,
  \<^verbatim>\<open>index_NNN.tsv\<close>. This holds whatever the order in which the futures complete.
\<close>

theorem no_intermediate_file_survives:
  assumes "file_at fs input_path = Some text"
    and "tmp_dir \<notin> dirs fs" and "tmp_dir \<noteq> outdir"
    and "filter (\<lambda>(p, t). fst p = tmp_dir) (files fs) = []"
  shows "\<exists>fs'.
     build_inverted_index input_path outdir lines_per_doc batch_docs shard_mb
         tmp_dir as_completed elapsed fs = Inr fs'
     \<and> tmp_dir \<notin> dirs fs'
     \<and> filter (\<lambda>(p, t). fst p = tmp_dir) (files fs') = []
     \<and> dirs fs' = insert outdir (dirs fs)
     \<and> (\<forall>p. file_at fs' p \<noteq> file_at fs p \<longrightarrow>
           fst p = outdir
           \<and> (snd p = lit ''resumen.txt'' \<or> (\<exists>k. snd p = shard_name (lit ''index'') k)))"
proof -
  from build_result [OF assms, of lines_per_doc batch_docs shard_mb as_completed elapsed]
  obtain rows fs' where
    build: "build_inverted_index input_path outdir lines_per_doc batch_docs shard_mb
         tmp_dir as_completed elapsed fs = Inr fs'"
    and ds: "dirs fs' = insert outdir (dirs fs)"
    and other: "\<forall>q. q \<noteq> (outdir, lit ''resumen.txt'')
            \<and> (\<forall>k<length (fst (merge_result shard_mb rows)). q \<noteq> (outdir, shard_name (lit ''index'') k))
          \<longrightarrow> file_at fs' q = file_at fs q"
    by blast
  have a: "tmp_dir \<notin> dirs fs'"
    using assms(2,3) by (simp add: ds)
  have "\<forall>p. fst p = tmp_dir \<longrightarrow> file_at fs' p = None"
  proof (intro allI impI)
    fix p :: path assume t: "fst p = tmp_dir"
    with assms(3) have "p \<noteq> (outdir, lit ''resumen.txt'')
        \<and> (\<forall>k<length (fst (merge_result shard_mb rows)). p \<noteq> (outdir, shard_name (lit ''index'') k))"
      by auto
    with other have "file_at fs' p = file_at fs p" by blast
    with no_file_in_dir [OF assms(4) t] show "file_at fs' p = None" by simp
  qed
  then have b: "filter (\<lambda>(p, t). fst p = tmp_dir) (files fs') = []"
    by (rule dir_empty)
  have c: "\<forall>p. file_at fs' p \<noteq> file_at fs p \<longrightarrow>
           fst p = outdir
           \<and> (snd p = lit ''resumen.txt'' \<or> (\<exists>k. snd p = shard_name (lit ''index'') k))"
  proof (intro allI impI)
    fix p :: path assume "file_at fs' p \<noteq> file_at fs p"
    with other have "p = (outdir, lit ''resumen.txt'')
        \<or> (\<exists>k<length (fst (merge_result shard_mb rows)). p = (outdir, shard_name (lit ''index'') k))"
      by blast
    then show "fst p = outdir
           \<and> (snd p = lit ''resumen.txt'' \<or> (\<exists>k. snd p = shard_name (lit ''index'') k))"
      by auto
  qed
  from build a b ds c show ?thesis by blast
qed

lemma sum_list_map_perm:
  fixes g :: "'a \<Rightarrow> nat"
  assumes "mset xs = mset ys"
  shows "sum_list (map g xs) = sum_list (map g ys)"
proof -
  from assms have "mset (map g xs) = mset (map g ys)" by (metis mset_map)
  then have "sum_mset (mset (map g xs)) = sum_mset (mset (map g ys))" by simp
  then show ?thesis by (simp only: sum_mset_sum_list)
qed

lemma merge_result_blocks:
  "\<exists>blocks. fst (merge_result m rows) = map rows_text blocks \<and> concat blocks = rows"
proof -
  from write_rows_blocks [of m rows "[]"] obtain blocks b where
    "closed (write_rows m rows (merge_init [])) = map rows_text blocks"
    "out (write_rows m rows (merge_init [])) = rows_text b"
    "concat blocks @ b = rows"
    by blast
  then have "fst (merge_result m rows) = map rows_text (blocks @ [b]) \<and> concat (blocks @ [b]) = rows"
    by (simp add: merge_result_def Let_def)
  then show ?thesis by blast
qed

text \<open>
  Claim C1, for the configurations with at least one line per document. With the input
  file in place, a fresh temporary directory, and the futures completing in any order (a
  permutation of the order in which they were submitted), \<^verbatim>\<open>build_inverted_index\<close>
  returns, and there are shard texts \<open>shards\<close> and rows \<open>rows\<close> such that:
  the files \<^verbatim>\<open>index_000.tsv\<close>, \<^verbatim>\<open>index_001.tsv\<close>, ... of the output directory hold the
  texts \<open>shards\<close>, one each;
  these files and \<^verbatim>\<open>resumen.txt\<close> are all that the build has written, every other path
  holding what it held before, so that there is no further shard file with triples in it;
  \<^verbatim>\<open>resumen.txt\<close> reports the number of documents of the reference, the number of \<open>rows\<close>
  as the record count and the number of \<open>shards\<close> as the shard count;
  the shards cut the sequence \<open>rows\<close> into consecutive blocks, each shard being the record
  lines of its block, so that every row is in exactly one shard, as often as it occurs in
  \<open>rows\<close>, and the shards read back line by line yield \<open>rows\<close>;
  and the multiset of \<open>rows\<close> is that of the reference: the documents of the
  specification's segmenter, each tokenized on its own, with the frequency of every term
  counted in its document.
  The batch size, the shard size and the order of completion have no influence on that
  multiset.
\<close>

theorem build_equals_reference:
  assumes "1 \<le> lines_per_doc"
    and "file_at fs input_path = Some text"
    and "tmp_dir \<notin> dirs fs" and "tmp_dir \<noteq> outdir"
    and "filter (\<lambda>(p, t). fst p = tmp_dir) (files fs) = []"
    and "mset (as_completed (futures (segment lines_per_doc batch_docs (readlines text))))
       = mset (futures (segment lines_per_doc batch_docs (readlines text)))"
  shows "\<exists>fs' shards rows.
     build_inverted_index input_path outdir lines_per_doc batch_docs shard_mb
         tmp_dir as_completed elapsed fs = Inr fs'
     \<and> (\<forall>k<length shards. file_at fs' (outdir, shard_name (lit ''index'') k) = Some (shards ! k))
     \<and> (\<forall>q. q \<noteq> (outdir, lit ''resumen.txt'')
            \<and> (\<forall>k<length shards. q \<noteq> (outdir, shard_name (lit ''index'') k))
          \<longrightarrow> file_at fs' q = file_at fs q)
     \<and> file_at fs' (outdir, lit ''resumen.txt'')
         = Some (summary_text outdir lines_per_doc
             (length (spec_documents (nat lines_per_doc) (readlines text)))
             (length rows) (length shards) elapsed)
     \<and> (\<exists>blocks. shards = map rows_text blocks \<and> concat blocks = rows)
     \<and> map (gen_line 0) (readlines (concat shards)) = map (\<lambda>r. Inr (tag 0 r)) rows
     \<and> mset rows = mset (reference_rows lines_per_doc (readlines text))"
proof -
  let ?futs = "futures (segment lines_per_doc batch_docs (readlines text))"
  let ?idx = "\<lambda>k. (outdir, shard_name (lit ''index'') k)"
  from build_result [OF assms(2-5), of lines_per_doc batch_docs shard_mb as_completed elapsed]
  obtain rows fs' where
    build: "build_inverted_index input_path outdir lines_per_doc batch_docs shard_mb
         tmp_dir as_completed elapsed fs = Inr fs'"
    and mrows: "mset rows = mset (concat (map (\<lambda>f. batch_rows (fst f) (snd f)) (as_completed ?futs)))"
    and crows: "\<forall>r\<in>set rows. clean_row r"
    and sh: "\<forall>k<length (fst (merge_result shard_mb rows)).
           file_at fs' (?idx k) = Some (fst (merge_result shard_mb rows) ! k)"
    and frame: "\<forall>q. q \<noteq> (outdir, lit ''resumen.txt'')
            \<and> (\<forall>k<length (fst (merge_result shard_mb rows)). q \<noteq> ?idx k)
          \<longrightarrow> file_at fs' q = file_at fs q"
    and summ: "file_at fs' (outdir, lit ''resumen.txt'')
         = Some (summary_text outdir lines_per_doc
             (sum_list (map (\<lambda>f. length (fst f)) (as_completed ?futs)))
             (fst (snd (merge_result shard_mb rows))) (snd (snd (merge_result shard_mb rows))) elapsed)"
    by blast
  define shards where "shards = fst (merge_result shard_mb rows)"
  note f = segment_futures [OF assms(1), of batch_docs "readlines text"]
  have "mset rows = mset (concat (map (\<lambda>f. batch_rows (fst f) (snd f)) ?futs))"
    unfolding mrows using assms(6) by (rule mset_concat_map_perm)
  also have "\<dots> = mset (batch_rows (concat (map fst ?futs)) 0)"
    using batches_rows [OF f(2)] by simp
  also have "\<dots> = mset (reference_rows lines_per_doc (readlines text))"
    unfolding f(1) reference_rows_def ..
  finally have r: "mset rows = mset (reference_rows lines_per_doc (readlines text))" .
  have "concat shards = rows_text rows"
    unfolding shards_def by (rule merge_result_text)
  then have rd: "map (gen_line 0) (readlines (concat shards)) = map (\<lambda>r. Inr (tag 0 r)) rows"
    using read_rows_text [OF crows, of 0] by simp
  have "sum_list (map (\<lambda>f. length (fst f)) (as_completed ?futs))
      = sum_list (map (\<lambda>f. length (fst f)) ?futs)"
    using assms(6) by (rule sum_list_map_perm)
  also have "\<dots> = length (concat (map fst ?futs))"
    by (simp add: length_concat comp_def)
  finally have nd: "sum_list (map (\<lambda>f. length (fst f)) (as_completed ?futs))
      = length (spec_documents (nat lines_per_doc) (readlines text))"
    unfolding f(1) .
  have su: "file_at fs' (outdir, lit ''resumen.txt'')
         = Some (summary_text outdir lines_per_doc
             (length (spec_documents (nat lines_per_doc) (readlines text)))
             (length rows) (length shards) elapsed)"
    unfolding summ nd shards_def merge_result_counts ..
  have "\<exists>blocks. shards = map rows_text blocks \<and> concat blocks = rows"
    unfolding shards_def by (rule merge_result_blocks)
  then obtain blocks where b: "shards = map rows_text blocks" "concat blocks = rows"
    by blast
  have sh': "\<forall>k<length shards. file_at fs' (?idx k) = Some (shards ! k)"
    using sh unfolding shards_def .
  have frame': "\<forall>q. q \<noteq> (outdir, lit ''resumen.txt'') \<and> (\<forall>k<length shards. q \<noteq> ?idx k)
          \<longrightarrow> file_at fs' q = file_at fs q"
    using frame unfolding shards_def .
  from build sh' frame' su b rd r show ?thesis
    by (intro exI conjI)
qed

text \<open>
  The input \<^verbatim>\<open>in/a\<close> holds the lines \<^verbatim>\<open>b a\<close> and \<^verbatim>\<open>a\<close>; one line per document, one
  document per batch, the threshold 0, the output directory \<^verbatim>\<open>o\<close>, the temporary directory
  \<^verbatim>\<open>t\<close>, and the futures completing in reverse order.
\<close>

theorem no_intermediate_file_survives_witness:
  "file_at \<lparr>dirs = {[105, 110]}, files = [(([105, 110], [97]), [98, 32, 97, 10, 97, 10])]\<rparr>
       ([105, 110], [97]) = Some [98, 32, 97, 10, 97, 10]
   \<and> [116] \<notin> dirs \<lparr>dirs = {[105, 110]}, files = [(([105, 110], [97]), [98, 32, 97, 10, 97, 10])]\<rparr>
   \<and> [116 :: nat] \<noteq> [111]
   \<and> filter (\<lambda>(p, t). fst p = [116])
         (files \<lparr>dirs = {[105, 110]}, files = [(([105, 110], [97]), [98, 32, 97, 10, 97, 10])]\<rparr>) = []
   \<and> (\<exists>fs'.
        build_inverted_index ([105, 110], [97]) [111] 1 1 0 [116] rev [48]
          \<lparr>dirs = {[105, 110]}, files = [(([105, 110], [97]), [98, 32, 97, 10, 97, 10])]\<rparr> = Inr fs'
        \<and> [116] \<notin> dirs fs'
        \<and> filter (\<lambda>(p, t). fst p = [116]) (files fs') = []
        \<and> dirs fs' = insert [111]
              (dirs \<lparr>dirs = {[105, 110]}, files = [(([105, 110], [97]), [98, 32, 97, 10, 97, 10])]\<rparr>)
        \<and> (\<forall>p. file_at fs' p
                  \<noteq> file_at \<lparr>dirs = {[105, 110]}, files = [(([105, 110], [97]), [98, 32, 97, 10, 97, 10])]\<rparr> p
              \<longrightarrow> fst p = [111]
                  \<and> (snd p = lit ''resumen.txt'' \<or> (\<exists>k. snd p = shard_name (lit ''index'') k))))
   \<and> (case build_inverted_index ([105, 110], [97]) [111] 1 1 0 [116] rev [48]
          \<lparr>dirs = {[105, 110]}, files = [(([105, 110], [97]), [98, 32, 97, 10, 97, 10])]\<rparr> of
        Inl e \<Rightarrow> False
      | Inr fs' \<Rightarrow> map fst (files fs')
          = [([105, 110], [97]), ([111], lit ''index_000.tsv''), ([111], lit ''index_001.tsv''),
             ([111], lit ''index_002.tsv''), ([111], lit ''index_003.tsv''), ([111], lit ''resumen.txt'')])"
proof -
  let ?fs = "\<lparr>dirs = {[105, 110]}, files = [(([105, 110], [97]), [98, 32, 97, 10, 97, 10])]\<rparr>"
  have h1: "file_at ?fs ([105, 110], [97]) = Some [98, 32, 97, 10, 97, 10]"
    by (simp add: file_at_def)
  have h2: "[116] \<notin> dirs ?fs" by simp
  have h3: "[116 :: nat] \<noteq> [111]" by simp
  have h4: "filter (\<lambda>(p, t). fst p = [116]) (files ?fs) = []" by simp
  have e: "(case build_inverted_index ([105, 110], [97]) [111] 1 1 0 [116] rev [48] ?fs of
        Inl e \<Rightarrow> False
      | Inr fs' \<Rightarrow> map fst (files fs')
          = [([105, 110], [97]), ([111], lit ''index_000.tsv''), ([111], lit ''index_001.tsv''),
             ([111], lit ''index_002.tsv''), ([111], lit ''index_003.tsv''), ([111], lit ''resumen.txt'')])"
    by code_simp
  from h1 h2 h3 h4 no_intermediate_file_survives [OF h1 h2 h3 h4, of 1 1 0 rev "[48]"] e
  show ?thesis by (intro conjI)
qed

text \<open>The same input with a threshold of one MiB: one shard with the three rows.\<close>

theorem build_equals_reference_witness:
  "(1 :: int) \<le> 1
   \<and> file_at \<lparr>dirs = {[105, 110]}, files = [(([105, 110], [97]), [98, 32, 97, 10, 97, 10])]\<rparr>
       ([105, 110], [97]) = Some [98, 32, 97, 10, 97, 10]
   \<and> [116] \<notin> dirs \<lparr>dirs = {[105, 110]}, files = [(([105, 110], [97]), [98, 32, 97, 10, 97, 10])]\<rparr>
   \<and> [116 :: nat] \<noteq> [111]
   \<and> filter (\<lambda>(p, t). fst p = [116])
         (files \<lparr>dirs = {[105, 110]}, files = [(([105, 110], [97]), [98, 32, 97, 10, 97, 10])]\<rparr>) = []
   \<and> mset (rev (futures (segment 1 1 (readlines [98, 32, 97, 10, 97, 10]))))
       = mset (futures (segment 1 1 (readlines [98, 32, 97, 10, 97, 10])))
   \<and> (\<exists>fs' shards rows.
        build_inverted_index ([105, 110], [97]) [111] 1 1 1 [116] rev [48]
          \<lparr>dirs = {[105, 110]}, files = [(([105, 110], [97]), [98, 32, 97, 10, 97, 10])]\<rparr> = Inr fs'
        \<and> (\<forall>k<length shards. file_at fs' ([111], shard_name (lit ''index'') k) = Some (shards ! k))
        \<and> (\<forall>q. q \<noteq> ([111], lit ''resumen.txt'')
               \<and> (\<forall>k<length shards. q \<noteq> ([111], shard_name (lit ''index'') k))
             \<longrightarrow> file_at fs' q
                 = file_at \<lparr>dirs = {[105, 110]}, files = [(([105, 110], [97]), [98, 32, 97, 10, 97, 10])]\<rparr> q)
        \<and> file_at fs' ([111], lit ''resumen.txt'')
            = Some (summary_text [111] 1
                (length (spec_documents (nat 1) (readlines [98, 32, 97, 10, 97, 10])))
                (length rows) (length shards) [48])
        \<and> (\<exists>blocks. shards = map rows_text blocks \<and> concat blocks = rows)
        \<and> map (gen_line 0) (readlines (concat shards)) = map (\<lambda>r. Inr (tag 0 r)) rows
        \<and> mset rows = mset (reference_rows 1 (readlines [98, 32, 97, 10, 97, 10])))
   \<and> reference_rows 1 (readlines [98, 32, 97, 10, 97, 10]) = [([98], 0, 1), ([97], 0, 1), ([97], 1, 1)]
   \<and> (case build_inverted_index ([105, 110], [97]) [111] 1 1 1 [116] rev [48]
          \<lparr>dirs = {[105, 110]}, files = [(([105, 110], [97]), [98, 32, 97, 10, 97, 10])]\<rparr> of
        Inl e \<Rightarrow> False
      | Inr fs' \<Rightarrow> file_at fs' ([111], shard_name (lit ''index'') 0)
          = Some [97, 9, 48, 9, 49, 10, 97, 9, 49, 9, 49, 10, 98, 9, 48, 9, 49, 10])"
proof -
  let ?fs = "\<lparr>dirs = {[105, 110]}, files = [(([105, 110], [97]), [98, 32, 97, 10, 97, 10])]\<rparr>"
  have h0: "(1 :: int) \<le> 1" by simp
  have h1: "file_at ?fs ([105, 110], [97]) = Some [98, 32, 97, 10, 97, 10]"
    by (simp add: file_at_def)
  have h2: "[116] \<notin> dirs ?fs" by simp
  have h3: "[116 :: nat] \<noteq> [111]" by simp
  have h4: "filter (\<lambda>(p, t). fst p = [116]) (files ?fs) = []" by simp
  have h5: "mset (rev (futures (segment 1 1 (readlines [98, 32, 97, 10, 97, 10]))))
       = mset (futures (segment 1 1 (readlines [98, 32, 97, 10, 97, 10])))"
    by simp
  have r: "reference_rows 1 (readlines [98, 32, 97, 10, 97, 10]) = [([98], 0, 1), ([97], 0, 1), ([97], 1, 1)]"
    by code_simp
  have e: "(case build_inverted_index ([105, 110], [97]) [111] 1 1 1 [116] rev [48] ?fs of
        Inl e \<Rightarrow> False
      | Inr fs' \<Rightarrow> file_at fs' ([111], shard_name (lit ''index'') 0)
          = Some [97, 9, 48, 9, 49, 10, 97, 9, 49, 9, 49, 10, 98, 9, 48, 9, 49, 10])"
    by code_simp
  from h0 h1 h2 h3 h4 h5 build_equals_reference [where as_completed = rev and lines_per_doc = 1 and batch_docs = 1
      and shard_mb = 1 and elapsed = "[48]", OF h0 h1 h2 h3 h4 h5] r e
  show ?thesis by (intro conjI)
qed

text \<open>
  Claim C1 as it is stated, for every configuration, fails at \<^verbatim>\<open>lines_per_doc = 0\<close>, a
  value the program accepts. Documents of no line hold no token, so the reference has no
  triple; the segmenter's test \<^verbatim>\<open>len(line_buf) >= lines_per_doc\<close> holds after every line,
  so the program makes a document of each line. On the same input \<^verbatim>\<open>in/a\<close>, with the
  lines \<^verbatim>\<open>b a\<close> and \<^verbatim>\<open>a\<close>, the build returns and its shard \<^verbatim>\<open>index_000.tsv\<close> holds three
  triples.
\<close>

theorem build_lines_per_doc_counterexample:
  "reference_rows 0 (readlines [98, 32, 97, 10, 97, 10]) = []
   \<and> (case build_inverted_index ([105, 110], [97]) [111] 0 1 1 [116] rev [48]
          \<lparr>dirs = {[105, 110]}, files = [(([105, 110], [97]), [98, 32, 97, 10, 97, 10])]\<rparr> of
        Inl e \<Rightarrow> False
      | Inr fs' \<Rightarrow> file_at fs' ([111], shard_name (lit ''index'') 0)
          = Some [97, 9, 48, 9, 49, 10, 97, 9, 49, 9, 49, 10, 98, 9, 48, 9, 49, 10])
   \<and> map (gen_line 0) (readlines [97, 9, 48, 9, 49, 10, 97, 9, 49, 9, 49, 10, 98, 9, 48, 9, 49, 10])
       = [Inr ([97], 0, 1, 0), Inr ([97], 1, 1, 0), Inr ([98], 0, 1, 0)]"
  by code_simp

end
